theory Spec2Isabelle
  imports Main "HOL-Library.Word" "HOL-Library.Monad_Syntax"
begin

unbundle bit_operations_syntax

section \<open>Machine integers, slices and panics\<close>

text \<open>
  The package is Go on a 64-bit target. Both \<open>uint\<close> and \<open>int\<close> are 64-bit words:
  arithmetic wraps, \<open>uint(x)\<close> and \<open>int(x)\<close> keep the bits, and only the comparisons
  differ (unsigned \<open><\<close> for \<open>uint\<close>, signed \<open><s\<close> for \<open>int\<close>). A slice is a list;
  \<open>len\<close> is its length as an \<open>int\<close>. A run-time panic (index or slice bound out of
  range, the explicit \<open>panic\<close> calls) and a loop that does not return are the value
  \<open>None\<close>.
\<close>

type_synonym uint = "64 word"

type_synonym gint = "64 word"

type_synonym byte = "8 word"

definition len :: "'a list \<Rightarrow> gint" where
  "len xs = of_nat (length xs)"

text \<open>\<open>xs[i]\<close> as a read and as an assignment target; out of range panics.\<close>

definition index :: "'a list \<Rightarrow> uint \<Rightarrow> 'a option" where
  "index xs i = (if unat i < length xs then Some (xs ! unat i) else None)"

definition store :: "'a list \<Rightarrow> uint \<Rightarrow> 'a \<Rightarrow> 'a list option" where
  "store xs i v = (if unat i < length xs then Some (xs[unat i := v]) else None)"

text \<open>\<open>xs[lo:hi]\<close> with \<open>uint\<close> bounds: the window \<open>(offset, length)\<close> into \<open>xs\<close>.\<close>

definition slice_uint :: "'a list \<Rightarrow> uint \<Rightarrow> uint \<Rightarrow> (nat \<times> nat) option" where
  "slice_uint xs lo hi =
     (if lo \<le> hi \<and> unat hi \<le> length xs then Some (unat lo, unat hi - unat lo) else None)"

text \<open>The same with \<open>int\<close> bounds: a negative bound panics as well.\<close>

definition slice_int :: "'a list \<Rightarrow> gint \<Rightarrow> gint \<Rightarrow> (nat \<times> nat) option" where
  "slice_int xs lo hi =
     (if 0 \<le>s lo \<and> lo \<le>s hi \<and> sint hi \<le> int (length xs)
      then Some (unat lo, unat hi - unat lo) else None)"

text \<open>The elements a window shows.\<close>

definition window :: "'a list \<Rightarrow> nat \<times> nat \<Rightarrow> 'a list" where
  "window xs w = take (snd w) (drop (fst w) xs)"

text \<open>
  The builtin \<open>copy(dst, src)\<close> where \<open>dst\<close> is a window into \<open>xs\<close>: it copies
  \<open>min (len dst) (len src)\<close> elements and leaves the rest of \<open>xs\<close> as it is.
\<close>

definition copy_to :: "'a list \<Rightarrow> nat \<times> nat \<Rightarrow> 'a list \<Rightarrow> 'a list" where
  "copy_to xs w src =
     (let n = min (snd w) (length src)
      in take (fst w) xs @ take n src @ drop (fst w + n) xs)"

section \<open>Ring: the byte ring (ringbuffer.go)\<close>

definition DefaultSize :: uint where
  "DefaultSize = 64"

record Ring =
  head :: uint
  tail :: uint
  data :: "byte list"

text \<open>The zero value of \<open>Ring\<close>, an empty buffer ready to use.\<close>

definition zero_Ring :: Ring where
  "zero_Ring = \<lparr>head = 0, tail = 0, data = []\<rparr>"

definition ring_end :: "Ring \<Rightarrow> uint" where
  "ring_end r = len (data r)"

definition ring_mask :: "Ring \<Rightarrow> uint" where
  "ring_mask r = len (data r) - 1"

definition Len :: "Ring \<Rightarrow> gint" where
  "Len r = (head r - tail r) AND ring_mask r"

text \<open>\<open>for cap < needCap { cap *= 2 }\<close>: it spins once \<open>cap\<close> has wrapped to 0.\<close>

partial_function (option) grow_cap :: "uint \<Rightarrow> uint \<Rightarrow> uint option" where
  "grow_cap cap needCap = (if cap < needCap then grow_cap (cap * 2) needCap else Some cap)"

declare grow_cap.simps [code]

definition ensureCapacity :: "uint \<Rightarrow> Ring \<Rightarrow> Ring option" where
  "ensureCapacity forBytes r =
     (let needCap = forBytes + Len r + 1 in
      if needCap \<le> len (data r) then Some r
      else
        let orgCap = len (data r);
            cap0 = (if orgCap < DefaultSize then DefaultSize else orgCap)
        in do {
          cap \<leftarrow> grow_cap cap0 needCap;
          let extra = sint (cap - orgCap);
          let r1 = r\<lparr>data := data r @ replicate (nat extra) 0\<rparr>;
          if head r1 < tail r1 then do {
            dst \<leftarrow> slice_uint (data r1) orgCap (orgCap + head r1);
            src \<leftarrow> slice_uint (data r1) 0 (head r1);
            Some (r1\<lparr>data := copy_to (data r1) dst (window (data r1) src),
                     head := head r1 + orgCap\<rparr>)
          } else Some r1
        })"

text \<open>
  \<open>DirectWrite\<close> returns the window of \<open>data\<close> the caller may fill, with the ring
  after the call.
\<close>

definition DirectWrite :: "gint \<Rightarrow> Ring \<Rightarrow> ((nat \<times> nat) \<times> Ring) option" where
  "DirectWrite numBytes r = do {
     r1 \<leftarrow> ensureCapacity (Len r + numBytes) r;
     let numBytes1 = (if (ring_end r1 - head r1) <s numBytes then ring_end r1 - head r1
                      else numBytes);
     w \<leftarrow> slice_int (data r1) (head r1) (head r1 + numBytes1);
     Some (w, r1\<lparr>head := (head r1 + numBytes1) AND ring_mask r1\<rparr>)
   }"

text \<open>
  \<open>DirectRead\<close> returns the bytes of the window it hands out (\<open>[]\<close> for \<open>nil\<close>),
  with the ring after the call.
\<close>

definition DirectRead :: "gint \<Rightarrow> Ring \<Rightarrow> (byte list \<times> Ring) option" where
  "DirectRead numBytes r =
     (let n1 = (if Len r <s numBytes then Len r else numBytes);
          n2 = (if (ring_end r - tail r) <s n1 then ring_end r - tail r else n1)
      in if n2 \<le>s 0 then Some ([], r)
         else do {
           w \<leftarrow> slice_uint (data r) (tail r) (tail r + n2);
           Some (window (data r) w, r\<lparr>tail := (tail r + n2) AND ring_mask r\<rparr>)
         })"

datatype error = EOF

text \<open>
  \<open>Read b\<close> returns \<open>(n, err)\<close>, the buffer \<open>b\<close> as the two copies leave it, and the
  ring.
\<close>

definition Read :: "byte list \<Rightarrow> Ring \<Rightarrow> ((gint \<times> error option) \<times> byte list \<times> Ring) option"
  where
  "Read b r = do {
     (s1, r1) \<leftarrow> DirectRead (len b) r;
     let b1 = copy_to b (0, length b) s1;
     (s2, r2) \<leftarrow> DirectRead (len b - len s1) r1;
     w \<leftarrow> slice_int b1 (len s1) (len b1);
     let b2 = copy_to b1 w s2;
     let total = len s1 + len s2;
     if total = 0 \<and> Len r2 = 0 then Some ((total, Some EOF), b2, r2)
     else Some ((total, None), b2, r2)
   }"

definition Write :: "byte list \<Rightarrow> Ring \<Rightarrow> ((gint \<times> error option) \<times> Ring) option" where
  "Write b r = do {
     (b1, r1) \<leftarrow> DirectWrite (len b) r;
     let r2 = r1\<lparr>data := copy_to (data r1) b1 b\<rparr>;
     if of_nat (snd b1) \<noteq> len b then do {
       (b2, r3) \<leftarrow> DirectWrite (len b - of_nat (snd b1)) r2;
       w \<leftarrow> slice_int b (of_nat (snd b1)) (len b);
       Some ((len b, None), r3\<lparr>data := copy_to (data r3) b2 (window b w)\<rparr>)
     } else Some ((len b, None), r2)
   }"

text \<open>
  \<open>ringContent\<close> of ringbuffer\_test.go: the content of the buffer, oldest byte first,
  without modifying it. Its two \<open>panic\<close> calls are its own consistency checks.
\<close>

definition ringContent :: "Ring \<Rightarrow> byte list option" where
  "ringContent r =
     (let buf = replicate (nat (sint (Len r))) (0 :: byte);
          s = (if head r \<ge> tail r then head r - tail r else ring_end r - tail r)
      in do {
        w1 \<leftarrow> slice_uint (data r) (tail r) (tail r + s);
        let buf1 = copy_to buf (0, length buf) (window (data r) w1);
        if head r < tail r then
          if head r + s \<noteq> Len r then None
          else do {
            d \<leftarrow> slice_uint buf1 s (len buf1);
            w2 \<leftarrow> slice_uint (data r) 0 (head r);
            Some (copy_to buf1 d (window (data r) w2))
          }
        else if s \<noteq> Len r then None else Some buf1
      })"

section \<open>RingP: the fixed ring of values (ringp.go)\<close>

text \<open>
  \<open>T\<close> is any type with a zero value, written \<open>0\<close>. The storage is allocated by
  \<open>NewRingP\<close> and no method assigns to \<open>items\<close> or \<open>mask\<close> as a whole.
\<close>

record 'a RingP =
  itemsP :: "'a list"
  maskP :: uint
  tailP :: uint
  headP :: uint

definition NewRingP :: "gint \<Rightarrow> 'a::zero RingP option" where
  "NewRingP sizePlus1 =
     (if sizePlus1 AND (sizePlus1 - 1) \<noteq> 0 \<or> sizePlus1 <s 2 then None
      else Some \<lparr>itemsP = replicate (nat (sint sizePlus1)) 0, maskP = sizePlus1 - 1,
                 tailP = 0, headP = 0\<rparr>)"

definition CapacityP :: "'a RingP \<Rightarrow> gint" where
  "CapacityP r = maskP r"

definition LenP :: "'a RingP \<Rightarrow> gint" where
  "LenP r = (headP r - tailP r) AND maskP r"

definition IsFullP :: "'a RingP \<Rightarrow> bool" where
  "IsFullP r = (LenP r = maskP r)"

definition NextP :: "'a::zero RingP \<Rightarrow> ('a \<times> 'a RingP) option" where
  "NextP r =
     (if LenP r = 0 then Some (0, r)
      else
        let t = tailP r;
            r1 = r\<lparr>tailP := (tailP r + 1) AND maskP r\<rparr>
        in do {
          item \<leftarrow> index (itemsP r1) t;
          Some (item, r1)
        })"

definition PeekP :: "gint \<Rightarrow> 'a::zero RingP \<Rightarrow> ('a \<times> 'a RingP) option" where
  "PeekP i r =
     (let length = (headP r - tailP r) AND maskP r;
          ui = i
      in if ui \<ge> length then Some (0, r)
         else
           let j = (tailP r + ui) AND maskP r
           in do {
             item \<leftarrow> index (itemsP r) j;
             Some (item, r)
           })"

definition AddP :: "'a::zero \<Rightarrow> 'a RingP \<Rightarrow> 'a RingP option" where
  "AddP item r = do {
     r1 \<leftarrow> (if IsFullP r then map_option snd (NextP r) else Some r);
     its \<leftarrow> store (itemsP r1) (headP r1) item;
     Some (r1\<lparr>itemsP := its, headP := (headP r1 + 1) AND maskP r1\<rparr>)
   }"

section \<open>RingT: the growing ring of pointers with a maximum size (ringt.go)\<close>

text \<open>A pointer \<open>*T\<close> is an \<open>'a option\<close>; \<open>nil\<close> is \<open>None\<close>.\<close>

record 'a RingT =
  itemsT :: "'a option list"
  maskT :: uint
  tailT :: uint
  headT :: uint
  maxSizeT :: gint

definition NewRingT :: "gint \<Rightarrow> 'a RingT option" where
  "NewRingT maxSize =
     (if maxSize <s 1 then None
      else Some \<lparr>itemsT = [], maskT = 0, tailT = 0, headT = 0, maxSizeT = maxSize\<rparr>)"

definition MaxSizeT :: "'a RingT \<Rightarrow> gint" where
  "MaxSizeT r = maxSizeT r"

definition LenT :: "'a RingT \<Rightarrow> gint" where
  "LenT r = (headT r - tailT r) AND maskT r"

definition IsFullT :: "'a RingT \<Rightarrow> bool" where
  "IsFullT r = (LenT r = maxSizeT r)"

definition NextT :: "'a RingT \<Rightarrow> ('a option \<times> 'a RingT) option" where
  "NextT r =
     (if LenT r = 0 then Some (None, r)
      else
        let t = tailT r;
            r1 = r\<lparr>tailT := (tailT r + 1) AND maskT r\<rparr>
        in do {
          item \<leftarrow> index (itemsT r1) t;
          its \<leftarrow> store (itemsT r1) t None;
          Some (item, r1\<lparr>itemsT := its\<rparr>)
        })"

definition PeekT :: "gint \<Rightarrow> 'a RingT \<Rightarrow> ('a option \<times> 'a RingT) option" where
  "PeekT i r =
     (let length = (headT r - tailT r) AND maskT r;
          ui = i
      in if ui \<ge> length then Some (None, r)
         else
           let j = (tailT r + ui) AND maskT r
           in do {
             item \<leftarrow> index (itemsT r) j;
             Some (item, r)
           })"

text \<open>
  The loop \<open>for i := 0; i < n; i++ { item := r.Next(); newItems[i] = item }\<close>, with
  the number of rounds left as the first argument.
\<close>

fun drainT :: "nat \<Rightarrow> gint \<Rightarrow> 'a RingT \<Rightarrow> 'a option list \<Rightarrow> ('a RingT \<times> 'a option list) option"
  where
  "drainT 0 i r newItems = Some (r, newItems)"
| "drainT (Suc k) i r newItems = do {
     (item, r1) \<leftarrow> NextT r;
     newItems1 \<leftarrow> store newItems i item;
     drainT k (i + 1) r1 newItems1
   }"

text \<open>The body of \<open>Add\<close>'s "need to grow array" branch.\<close>

definition growT :: "'a RingT \<Rightarrow> 'a RingT option" where
  "growT r =
     (let newSize0 = len (itemsT r) * 2;
          newSize = (if newSize0 <s 2 then 2 else newSize0);
          newItems = replicate (nat (sint newSize)) None;
          n = LenT r
      in do {
        (r1, newItems1) \<leftarrow> drainT (nat (sint n)) 0 r newItems;
        Some (r1\<lparr>itemsT := newItems1, maskT := newSize - 1, tailT := 0, headT := n\<rparr>)
      })"

text \<open>The last two statements of \<open>Add\<close>: the write at \<open>head\<close> and its advance.\<close>

definition putT :: "'a option \<Rightarrow> 'a RingT \<Rightarrow> 'a RingT option" where
  "putT item r = do {
     its \<leftarrow> store (itemsT r) (headT r) item;
     Some (r\<lparr>itemsT := its, headT := (headT r + 1) AND maskT r\<rparr>)
   }"

definition AddT :: "'a option \<Rightarrow> 'a RingT \<Rightarrow> 'a RingT option" where
  "AddT item r = do {
     r1 \<leftarrow> (if LenT r = maxSizeT r then map_option snd (NextT r) else Some r);
     r2 \<leftarrow> (if len (itemsT r1) = 0 \<or> LenT r1 = len (itemsT r1) - 1 then growT r1
            else Some r1);
     putT item r2
   }"

section \<open>WeightedRingT: the ring bounded by total weight (weighted.go)\<close>

record 'a WeightedRingT =
  MaxWeightW :: gint
  weightW :: gint
  itemsW :: "'a option list"
  weightsW :: "gint list"
  tailW :: uint
  headW :: uint

definition NewWeightedRingT :: "gint \<Rightarrow> 'a WeightedRingT" where
  "NewWeightedRingT maxWeight =
     \<lparr>MaxWeightW = maxWeight, weightW = 0, itemsW = [], weightsW = [], tailW = 0, headW = 0\<rparr>"

definition maskW :: "'a WeightedRingT \<Rightarrow> uint" where
  "maskW r = len (itemsW r) - 1"

definition LenW :: "'a WeightedRingT \<Rightarrow> gint" where
  "LenW r = (headW r - tailW r) AND maskW r"

definition WeightW :: "'a WeightedRingT \<Rightarrow> gint" where
  "WeightW r = weightW r"

definition NextW :: "'a WeightedRingT \<Rightarrow> ((bool \<times> 'a option \<times> gint) \<times> 'a WeightedRingT) option"
  where
  "NextW r =
     (if LenW r = 0 then Some ((False, None, 0), r)
      else
        let t = tailW r;
            r1 = r\<lparr>tailW := (tailW r + 1) AND maskW r\<rparr>
        in do {
          w \<leftarrow> index (weightsW r1) t;
          let r2 = r1\<lparr>weightW := weightW r1 - w\<rparr>;
          item \<leftarrow> index (itemsW r2) t;
          its \<leftarrow> store (itemsW r2) t None;
          Some ((True, item, w), r2\<lparr>itemsW := its\<rparr>)
        })"

text \<open>
  The copying loop of \<open>Add\<close>:
  \<open>for i := 0; i < n; i++ { _, item, w := r.Next(); newItems[i] = item; newWeights[i] = w }\<close>.
\<close>

fun drainW :: "nat \<Rightarrow> gint \<Rightarrow> 'a WeightedRingT \<Rightarrow> 'a option list \<Rightarrow> gint list \<Rightarrow>
    ('a WeightedRingT \<times> 'a option list \<times> gint list) option" where
  "drainW 0 i r newItems newWeights = Some (r, newItems, newWeights)"
| "drainW (Suc k) i r newItems newWeights = do {
     ((_, item, w), r1) \<leftarrow> NextW r;
     newItems1 \<leftarrow> store newItems i item;
     newWeights1 \<leftarrow> store newWeights i w;
     drainW k (i + 1) r1 newItems1 newWeights1
   }"

definition growW :: "'a WeightedRingT \<Rightarrow> 'a WeightedRingT option" where
  "growW r =
     (let newSize0 = len (itemsW r) * 2;
          newSize = (if newSize0 <s 4 then 4 else newSize0);
          newItems = replicate (nat (sint newSize)) None;
          newWeights = replicate (nat (sint newSize)) 0;
          orgWeight = weightW r;
          n = LenW r
      in do {
        (r1, newItems1, newWeights1) \<leftarrow> drainW (nat (sint n)) 0 r newItems newWeights;
        Some (r1\<lparr>itemsW := newItems1, weightsW := newWeights1, tailW := 0, headW := n,
                 weightW := orgWeight\<rparr>)
      })"

text \<open>\<open>for r.weight+weight > r.MaxWeight && r.Len() != 0 { r.Next() }\<close>\<close>

partial_function (option) evictW :: "gint \<Rightarrow> 'a WeightedRingT \<Rightarrow> 'a WeightedRingT option"
  where
  "evictW weight r =
     (if MaxWeightW r <s weightW r + weight \<and> LenW r \<noteq> 0
      then NextW r \<bind> (\<lambda>res. evictW weight (snd res))
      else Some r)"

declare evictW.simps [code]

text \<open>The last four statements of \<open>Add\<close>.\<close>

definition putW :: "gint \<Rightarrow> 'a option \<Rightarrow> 'a WeightedRingT \<Rightarrow> 'a WeightedRingT option" where
  "putW weight item r = do {
     its \<leftarrow> store (itemsW r) (headW r) item;
     ws \<leftarrow> store (weightsW r) (headW r) weight;
     let r1 = r\<lparr>itemsW := its, weightsW := ws, weightW := weightW r + weight\<rparr>;
     Some (r1\<lparr>headW := (headW r1 + 1) AND maskW r1\<rparr>)
   }"

definition AddW :: "gint \<Rightarrow> 'a option \<Rightarrow> 'a WeightedRingT \<Rightarrow> 'a WeightedRingT option" where
  "AddW weight item r = do {
     r1 \<leftarrow> (if len (itemsW r) = 0 \<or> LenW r = len (itemsW r) - 1 then growW r else Some r);
     r2 \<leftarrow> evictW weight r1;
     putW weight item r2
   }"

text \<open>\<open>peek\<close> takes a \<open>uint\<close> and makes no range check of its own.\<close>

definition peekW :: "uint \<Rightarrow> 'a WeightedRingT \<Rightarrow> (('a option \<times> gint) \<times> 'a WeightedRingT) option"
  where
  "peekW i r =
     (let j = (tailW r + i) AND maskW r
      in do {
        item \<leftarrow> index (itemsW r) j;
        w \<leftarrow> index (weightsW r) j;
        Some ((item, w), r)
      })"

section \<open>The shape shared by the rings\<close>

definition ring_ok :: "nat \<Rightarrow> uint \<Rightarrow> uint \<Rightarrow> uint \<Rightarrow> bool" where
  "ring_ok c m t h \<longleftrightarrow> (\<exists>k\<le>62. c = 2 ^ k \<and> m = mask k \<and> unat t < c \<and> unat h < c)"

definition ring_count :: "nat \<Rightarrow> uint \<Rightarrow> uint \<Rightarrow> nat" where
  "ring_count c t h = (if unat t \<le> unat h then unat h - unat t else unat h + c - unat t)"

section \<open>Slots of a circular array\<close>

definition holds :: "'a list \<Rightarrow> nat \<Rightarrow> 'a list \<Rightarrow> bool" where
  "holds xs t m \<longleftrightarrow> (\<forall>i<length m. xs ! ((t + i) mod length xs) = m ! i)"

definition vacant :: "'a option list \<Rightarrow> nat \<Rightarrow> nat \<Rightarrow> bool" where
  "vacant xs t n \<longleftrightarrow>
     (\<forall>j<length xs. (\<forall>i<n. (t + i) mod length xs \<noteq> j) \<longrightarrow> xs ! j = None)"

section \<open>RingP\<close>

definition wfP :: "'a RingP \<Rightarrow> bool" where
  "wfP r \<longleftrightarrow> ring_ok (length (itemsP r)) (maskP r) (tailP r) (headP r)
     \<and> 2 \<le> length (itemsP r)"

definition relP :: "'a RingP \<Rightarrow> 'a list \<Rightarrow> bool" where
  "relP r m \<longleftrightarrow> wfP r
     \<and> ring_count (length (itemsP r)) (tailP r) (headP r) = length m
     \<and> holds (itemsP r) (unat (tailP r)) m"

datatype 'a ring_op = Add 'a | Next

fun inserted :: "'a ring_op list \<Rightarrow> 'a list" where
  "inserted [] = []"
| "inserted (Add x # ops) = x # inserted ops"
| "inserted (Next # ops) = inserted ops"

fun only_adds :: "'a ring_op list \<Rightarrow> bool" where
  "only_adds [] = True"
| "only_adds (Add x # ops) = only_adds ops"
| "only_adds (Next # ops) = False"

definition lastn :: "nat \<Rightarrow> 'a list \<Rightarrow> 'a list" where
  "lastn n xs = drop (length xs - n) xs"

text \<open>
  The reference queue of the tests (\<open>val\<close> in ringp\_test.go and ringt\_test.go): \<open>add\<close>
  drops the first element while the queue holds \<open>M\<close> elements, then appends; \<open>chomp\<close>
  drops the first element and leaves an empty queue empty.
\<close>

fun survivors :: "nat \<Rightarrow> 'a ring_op list \<Rightarrow> 'a list \<Rightarrow> 'a list" where
  "survivors M [] val = val"
| "survivors M (Add x # ops) val =
     survivors M ops ((if length val = M then tl val else val) @ [x])"
| "survivors M (Next # ops) val = survivors M ops (tl val)"

fun runP :: "'a ring_op list \<Rightarrow> 'a::zero RingP \<Rightarrow> 'a RingP option" where
  "runP [] r = Some r"
| "runP (Add x # ops) r = AddP x r \<bind> runP ops"
| "runP (Next # ops) r = NextP r \<bind> (\<lambda>res. runP ops (snd res))"

definition contentP :: "'a::zero RingP \<Rightarrow> 'a option list" where
  "contentP r = map (\<lambda>i. map_option fst (PeekP (of_nat i) r)) [0..<unat (LenP r)]"

section \<open>RingT\<close>

definition wfT :: "'a RingT \<Rightarrow> bool" where
  "wfT r \<longleftrightarrow>
     (itemsT r = [] \<and> maskT r = 0 \<and> tailT r = 0 \<and> headT r = 0)
     \<or> (ring_ok (length (itemsT r)) (maskT r) (tailT r) (headT r) \<and> 2 \<le> length (itemsT r))"

definition relT :: "'a RingT \<Rightarrow> 'a option list \<Rightarrow> bool" where
  "relT r m \<longleftrightarrow> wfT r
     \<and> ring_count (length (itemsT r)) (tailT r) (headT r) = length m
     \<and> holds (itemsT r) (unat (tailT r)) m
     \<and> vacant (itemsT r) (unat (tailT r)) (length m)
     \<and> 1 \<le>s maxSizeT r \<and> length m \<le> unat (maxSizeT r)"

fun runT :: "'a option ring_op list \<Rightarrow> 'a RingT \<Rightarrow> 'a RingT option" where
  "runT [] r = Some r"
| "runT (Add x # ops) r = AddT x r \<bind> runT ops"
| "runT (Next # ops) r = NextT r \<bind> (\<lambda>res. runT ops (snd res))"

text \<open>Slot \<open>j\<close> lies outside the occupied region \<open>[tail, head)\<close> of a circular array.\<close>

definition outside :: "uint \<Rightarrow> uint \<Rightarrow> nat \<Rightarrow> bool" where
  "outside t h j \<longleftrightarrow>
     (if t \<le> h then j < unat t \<or> unat h \<le> j else unat h \<le> j \<and> j < unat t)"

section \<open>WeightedRingT\<close>

definition wfW :: "'a WeightedRingT \<Rightarrow> bool" where
  "wfW r \<longleftrightarrow> length (weightsW r) = length (itemsW r)
     \<and> ((itemsW r = [] \<and> tailW r = 0 \<and> headW r = 0)
        \<or> (ring_ok (length (itemsW r)) (maskW r) (tailW r) (headW r) \<and> 4 \<le> length (itemsW r)))"

definition relW :: "'a WeightedRingT \<Rightarrow> ('a option \<times> gint) list \<Rightarrow> bool" where
  "relW r m \<longleftrightarrow> wfW r
     \<and> ring_count (length (itemsW r)) (tailW r) (headW r) = length m
     \<and> holds (itemsW r) (unat (tailW r)) (map fst m)
     \<and> holds (weightsW r) (unat (tailW r)) (map snd m)
     \<and> vacant (itemsW r) (unat (tailW r)) (length m)
     \<and> weightW r = sum_list (map snd m)"

text \<open>
  The reference of weighted\_test.go: before an insert of weight \<open>w\<close>, \<open>val\<close> drops its
  first element while the total weight plus \<open>w\<close> exceeds \<open>MaxWeight\<close> and \<open>val\<close> is not
  empty.
\<close>

fun evict_ref :: "gint \<Rightarrow> gint \<Rightarrow> ('a \<times> gint) list \<Rightarrow> ('a \<times> gint) list" where
  "evict_ref W w [] = []"
| "evict_ref W w (x # xs) =
     (if W <s sum_list (map snd (x # xs)) + w then evict_ref W w xs else x # xs)"

fun runW :: "(gint \<times> 'a option) ring_op list \<Rightarrow> 'a WeightedRingT \<Rightarrow> 'a WeightedRingT option"
  where
  "runW [] r = Some r"
| "runW (Add x # ops) r = AddW (fst x) (snd x) r \<bind> runW ops"
| "runW (Next # ops) r = NextW r \<bind> (\<lambda>res. runW ops (snd res))"

text \<open>The weights of the live elements, oldest first, read at the slots \<open>peek\<close> computes.\<close>

definition live_weights :: "'a WeightedRingT \<Rightarrow> gint list" where
  "live_weights r =
     map (\<lambda>i. weightsW r ! unat ((tailW r + of_nat i) AND maskW r)) [0..<unat (LenW r)]"

text \<open>
  The elements a run leaves in the ring, as the reference queue of weighted\_test.go has
  them.
\<close>

fun survivorsW :: "gint \<Rightarrow> (gint \<times> 'a) ring_op list \<Rightarrow> ('a \<times> gint) list \<Rightarrow> ('a \<times> gint) list"
  where
  "survivorsW W [] val = val"
| "survivorsW W (Add x # ops) val = survivorsW W ops (evict_ref W (fst x) val @ [(snd x, fst x)])"
| "survivorsW W (Next # ops) val = survivorsW W ops (tl val)"

text \<open>The live references, oldest first, read at the slots \<open>Peek\<close> computes.\<close>

definition liveT :: "'a RingT \<Rightarrow> 'a option list" where
  "liveT r = map (\<lambda>i. itemsT r ! unat ((tailT r + of_nat i) AND maskT r)) [0..<unat (LenT r)]"

definition live_items :: "'a WeightedRingT \<Rightarrow> 'a option list" where
  "live_items r =
     map (\<lambda>i. itemsW r ! unat ((tailW r + of_nat i) AND maskW r)) [0..<unat (LenW r)]"

section \<open>The byte ring\<close>

text \<open>
  The shape of a byte ring (section 3 of the specification): no array yet, or an array whose
  length is a power of two, with \<open>head\<close> and \<open>tail\<close> inside it.
\<close>

definition ring_inv :: "Ring \<Rightarrow> bool" where
  "ring_inv r \<longleftrightarrow>
     (data r = [] \<and> head r = 0 \<and> tail r = 0)
     \<or> ring_ok (length (data r)) (ring_mask r) (tail r) (head r)"

text \<open>The buffered bytes, oldest first.\<close>

definition contentB :: "Ring \<Rightarrow> byte list" where
  "contentB r =
     (if tail r \<le> head r
      then take (unat (head r) - unat (tail r)) (drop (unat (tail r)) (data r))
      else drop (unat (tail r)) (data r) @ take (unat (head r)) (data r))"

text \<open>What \<open>DirectRead\<close> hands out: the first bytes of the content, as many as asked for,
  as are buffered and as lie before the end of the array.\<close>

definition read_len :: "Ring \<Rightarrow> nat \<Rightarrow> nat" where
  "read_len r q = min q (min (length (contentB r)) (length (data r) - unat (tail r)))"

section \<open>Index arithmetic\<close>

lemma unat_and_mask: "unat ((x::'a::len word) AND mask k) = unat x mod 2 ^ k"
proof -
  have "x AND mask k = take_bit k x" by (simp add: take_bit_eq_mask)
  then have "unat (x AND mask k) = take_bit k (unat x)" by (simp only: unsigned_take_bit_eq)
  then show ?thesis by (simp add: take_bit_eq_mod)
qed

lemma pow2_lt_64: "k \<le> 63 \<Longrightarrow> (2::nat) ^ k < 2 ^ 64"
  by (rule power_strict_increasing) simp_all

lemma pow2_le_63: "k \<le> 63 \<Longrightarrow> (2::nat) ^ k \<le> 2 ^ 63"
  by (rule power_increasing) simp_all

lemma pow2_le_62: "k \<le> 62 \<Longrightarrow> (2::nat) ^ k \<le> 2 ^ 62"
  by (rule power_increasing) simp_all

lemma unat_len: "length xs < 2 ^ 64 \<Longrightarrow> unat (len xs) = length xs"
  by (simp add: len_def unat_of_nat)

lemma len_mask: "length xs = 2 ^ k \<Longrightarrow> len xs - 1 = mask k"
  by (simp add: len_def mask_eq_exp_minus_1)

lemma pow2_64_split: "k \<le> 63 \<Longrightarrow> \<exists>q. (2::nat) ^ 64 = 2 ^ k * Suc q"
proof -
  assume k: "k \<le> 63"
  have "(64::nat) = k + (64 - k)" using k by simp
  then have "(2::nat) ^ 64 = 2 ^ (k + (64 - k))" by (rule arg_cong)
  then have e: "(2::nat) ^ 64 = 2 ^ k * 2 ^ (64 - k)" by (simp only: power_add)
  have "(2::nat) ^ (64 - k) \<noteq> 0" by simp
  then obtain q where "(2::nat) ^ (64 - k) = Suc q" using not0_implies_Suc by blast
  with e show ?thesis by (intro exI[of _ q]) (simp only:)
qed

lemma mod_wrap_sub:
  fixes a b c :: nat
  assumes "a < c" "b < c" "\<not> b \<le> a"
  shows "(a + c * Suc q - b) mod c = a + c - b"
proof -
  have "a + c * Suc q - b = (a + c - b) + c * q" using assms by (simp add: algebra_simps)
  then have "(a + c * Suc q - b) mod c = (a + c - b) mod c" by simp
  then show ?thesis using assms by simp
qed

lemma mod_wrap_sub1:
  fixes c :: nat
  assumes "0 < c"
  shows "(c * Suc q - 1) mod c = c - 1"
proof -
  have "c * Suc q - 1 = (c - 1) + c * q" using assms by (simp add: algebra_simps)
  then have "(c * Suc q - 1) mod c = (c - 1) mod c" by simp
  then show ?thesis using assms by simp
qed

lemma unat_mask_64: "k \<le> 63 \<Longrightarrow> unat (mask k :: 64 word) = 2 ^ k - 1"
proof -
  assume k: "k \<le> 63"
  have "uint (mask k :: 64 word) = mask (min 64 k)" by (simp only: uint_mask_eq) simp
  also have "min 64 k = k" using k by simp
  finally have "uint (mask k :: 64 word) = 2 ^ k - 1" by (simp only: mask_int_def)
  then have "int (unat (mask k :: 64 word)) = int (2 ^ k - 1)"
    by (simp add: of_nat_diff)
  then show ?thesis by (simp only: of_nat_eq_iff)
qed

lemma unat_sub_mask:
  fixes x y :: "64 word"
  assumes "unat x < 2 ^ k" "unat y < 2 ^ k" "k \<le> 63"
  shows "unat ((x - y) AND mask k) =
    (if unat y \<le> unat x then unat x - unat y else unat x + 2 ^ k - unat y)"
proof (cases "unat y \<le> unat x")
  case True
  then have "unat (x - y) = unat x - unat y" by (simp add: unat_sub_if')
  with True assms show ?thesis by (simp add: unat_and_mask)
next
  case False
  obtain q where q: "(2::nat) ^ 64 = 2 ^ k * Suc q" using pow2_64_split[OF assms(3)] by blast
  from False have "unat (x - y) = unat x + 2 ^ 64 - unat y" by (simp add: unat_sub_if')
  then have "unat (x - y) = unat x + 2 ^ k * Suc q - unat y" by (simp only: q)
  then have "unat (x - y) mod 2 ^ k = unat x + 2 ^ k - unat y"
    using mod_wrap_sub[OF assms(1,2) False] by simp
  then show ?thesis using False by (simp add: unat_and_mask)
qed

lemma unat_add_mask:
  fixes x y :: "64 word"
  assumes "unat x + unat y < 2 ^ 64"
  shows "unat ((x + y) AND mask k) = (unat x + unat y) mod 2 ^ k"
  using assms by (simp add: unat_and_mask unat_word_ariths)

lemma uint_lt_iff: "uint (w :: 64 word) < 2 ^ 63 \<longleftrightarrow> unat w < 2 ^ 63"
  by (simp add: nat_int_comparison)

lemma sint_small: "unat (w :: 64 word) < 2 ^ 63 \<Longrightarrow> sint w = uint w"
proof -
  assume a: "unat w < 2 ^ 63"
  then have "uint w < 2 ^ 63" by (simp only: uint_lt_iff)
  moreover have "- (2 ^ 63) \<le> uint w" by (rule order_trans[of _ 0]) simp_all
  ultimately have "signed_take_bit 63 (uint w) = uint w"
    by (intro signed_take_bit_int_eq_self)
  then show ?thesis by (simp add: sint_uint)
qed

lemma ring_slot_neq:
  fixes c :: nat
  assumes "i < n" "n < c"
  shows "(t + i) mod c \<noteq> (t + n) mod c"
proof
  assume "(t + i) mod c = (t + n) mod c"
  then have "(t + n) mod c = (t + i) mod c" by simp
  then have "c dvd (t + n) - (t + i)" using assms by (simp add: mod_eq_dvd_iff_nat)
  then have "c dvd n - i" using assms by simp
  then show False using assms by (auto dest: dvd_imp_le)
qed

lemma ring_ok_bounds:
  assumes "ring_ok c m t h"
  shows "0 < c" "c \<le> 2 ^ 62" "unat t < c" "unat h < c" "unat m = c - 1"
  using assms pow2_le_62 by (auto simp: ring_ok_def unat_mask_64)

lemma ring_ok_len:
  assumes "ring_ok c m t h"
  shows "unat ((h - t) AND m) = ring_count c t h"
  using assms by (auto simp: ring_ok_def ring_count_def unat_sub_mask)

lemma ring_count_lt: "ring_ok c m t h \<Longrightarrow> ring_count c t h < c"
  by (auto simp: ring_ok_def ring_count_def)

lemma ring_ok_head: "ring_ok c m t h \<Longrightarrow> unat h = (unat t + ring_count c t h) mod c"
  by (auto simp: ring_ok_def ring_count_def)

lemma ring_ok_add:
  assumes "ring_ok c m t h" "unat i < 2 ^ 63"
  shows "unat ((t + i) AND m) = (unat t + unat i) mod c"
proof -
  from assms obtain k where k: "k \<le> 62" "c = 2 ^ k" "m = mask k" "unat t < c"
    by (auto simp: ring_ok_def)
  have "c \<le> 2 ^ 62" using k pow2_le_62 by simp
  then have "unat t + unat i < 2 ^ 64" using k assms(2) by simp
  then show ?thesis using k by (simp add: unat_add_mask)
qed

lemma ring_ok_succ:
  assumes "ring_ok c m t h"
  shows "unat ((t + 1) AND m) = (unat t + 1) mod c"
  using ring_ok_add[OF assms, of 1] by simp

lemma mod_succ_if: "(t::nat) < c \<Longrightarrow> (t + 1) mod c = (if t + 1 = c then 0 else t + 1)"
  by auto

lemma ring_ok_tail_step:
  assumes "ring_ok c m t h"
  shows "ring_ok c m ((t + 1) AND m) h"
proof -
  have "unat ((t + 1) AND m) < c" using ring_ok_succ[OF assms] ring_ok_bounds(1)[OF assms] by simp
  then show ?thesis using assms by (auto simp: ring_ok_def)
qed

lemma ring_ok_head_step:
  assumes "ring_ok c m t h"
  shows "ring_ok c m t ((h + 1) AND m)"
proof -
  have "ring_ok c m h t" using assms by (auto simp: ring_ok_def)
  then have "ring_ok c m ((h + 1) AND m) t" by (rule ring_ok_tail_step)
  then show ?thesis by (auto simp: ring_ok_def)
qed

lemma ring_count_tail_step:
  assumes "ring_ok c m t h" "ring_count c t h \<noteq> 0"
  shows "ring_count c ((t + 1) AND m) h = ring_count c t h - 1"
proof -
  have b: "unat t < c" "unat h < c" using ring_ok_bounds[OF assms(1)] by simp_all
  have s: "unat ((t + 1) AND m) = (if unat t + 1 = c then 0 else unat t + 1)"
    using ring_ok_succ[OF assms(1)] mod_succ_if[OF b(1)] by simp
  show ?thesis using assms(2) b unfolding ring_count_def s by (auto split: if_splits)
qed

lemma ring_count_head_step:
  assumes "ring_ok c m t h" "ring_count c t h + 1 < c"
  shows "ring_count c t ((h + 1) AND m) = ring_count c t h + 1"
proof -
  have b: "unat t < c" "unat h < c" using ring_ok_bounds[OF assms(1)] by simp_all
  have "ring_ok c m h t" using assms(1) by (auto simp: ring_ok_def)
  then have s: "unat ((h + 1) AND m) = (if unat h + 1 = c then 0 else unat h + 1)"
    using ring_ok_succ mod_succ_if[OF b(2)] by simp
  show ?thesis using assms(2) b unfolding ring_count_def s by (auto split: if_splits)
qed

lemma sint_neg: "2 ^ 63 \<le> unat (w :: 64 word) \<Longrightarrow> sint w < 0"
proof -
  assume a: "2 ^ 63 \<le> unat w"
  define u where "u = uint w"
  have lo: "2 ^ 63 \<le> u" using a unfolding u_def by (simp add: nat_int_comparison)
  have hi: "u < 2 ^ 64" unfolding u_def using uint_lt2p[of w] by simp
  have "u + 2 ^ 63 = (u - 2 ^ 63) + 2 ^ 64" by simp
  then have "(u + 2 ^ 63) mod 2 ^ 64 = ((u - 2 ^ 63) + 2 ^ 64) mod 2 ^ 64" by (rule arg_cong)
  also have "\<dots> = (u - 2 ^ 63) mod 2 ^ 64" by (simp only: mod_add_self2)
  also have "\<dots> = u - 2 ^ 63" using lo hi by (intro mod_pos_pos_trivial) simp_all
  finally have "take_bit 64 (u + 2 ^ 63) = u - 2 ^ 63" by (simp only: take_bit_eq_mod)
  then have "signed_take_bit 63 u = u - 2 ^ 63 - 2 ^ 63"
    by (simp only: signed_take_bit_eq_take_bit_shift) simp
  then have "sint w = u - 2 ^ 64" by (simp add: sint_uint u_def)
  then show ?thesis using hi by simp
qed

lemma signed_out_of_range:
  fixes a i :: "64 word"
  assumes "unat a < 2 ^ 63" "i <s 0 \<or> a \<le>s i"
  shows "a \<le> i"
proof (cases "unat i < 2 ^ 63")
  case True
  then have "sint i = uint i" by (rule sint_small)
  moreover have "sint a = uint a" using assms(1) by (rule sint_small)
  ultimately show ?thesis using assms(2)
    by (auto simp: word_sless_alt word_sle_eq word_le_def)
next
  case False
  then show ?thesis using assms(1) by (simp add: word_le_nat_alt)
qed

lemma signed_in_range:
  fixes a i :: "64 word"
  assumes "unat a < 2 ^ 63" "\<not> (i <s 0 \<or> a \<le>s i)"
  shows "i < a"
proof -
  have a: "sint a = uint a" using assms(1) by (rule sint_small)
  have "unat i < 2 ^ 63"
  proof (rule ccontr)
    assume "\<not> unat i < 2 ^ 63"
    then have "sint i < 0" by (intro sint_neg) simp
    then show False using assms(2) by (simp add: word_sless_alt)
  qed
  then have "sint i = uint i" by (rule sint_small)
  then show ?thesis using assms(2) a by (auto simp: word_sless_alt word_sle_eq word_less_def)
qed

lemma unat_of_nat_small: "i < 2 ^ 64 \<Longrightarrow> unat (of_nat i :: 64 word) = i"
  by (simp add: unat_of_nat)

lemma holds_push:
  assumes "holds xs t m" "length m < length xs"
  shows "holds (xs[(t + length m) mod length xs := x]) t (m @ [x])"
proof -
  let ?c = "length xs"
  have c: "0 < ?c" using assms(2) by (cases xs) simp_all
  show ?thesis unfolding holds_def
  proof (intro allI impI)
    fix i assume i: "i < length (m @ [x])"
    show "xs[(t + length m) mod ?c := x] ! ((t + i) mod length (xs[(t + length m) mod ?c := x]))
        = (m @ [x]) ! i"
    proof (cases "i < length m")
      case True
      then have "(t + i) mod ?c \<noteq> (t + length m) mod ?c"
        using assms(2) by (intro ring_slot_neq)
      then show ?thesis using True assms(1) by (simp add: holds_def nth_append)
    next
      case False
      then have "i = length m" using i by simp
      then show ?thesis using c by simp
    qed
  qed
qed

lemma holds_pop:
  assumes "holds xs t m" "m \<noteq> []" "t < length xs"
  shows "xs ! t = hd m" "holds xs ((t + 1) mod length xs) (tl m)"
proof -
  have "0 < length m" using assms(2) by simp
  then have "xs ! ((t + 0) mod length xs) = m ! 0" using assms(1) unfolding holds_def by blast
  then show "xs ! t = hd m" using assms(2,3) by (simp add: hd_conv_nth)
  show "holds xs ((t + 1) mod length xs) (tl m)" unfolding holds_def
  proof (intro allI impI)
    fix i assume i: "i < length (tl m)"
    then have "Suc i < length m" by simp
    then have "xs ! ((t + Suc i) mod length xs) = m ! Suc i"
      using assms(1) unfolding holds_def by blast
    moreover have "((t + 1) mod length xs + i) mod length xs = (t + Suc i) mod length xs"
      by (simp add: mod_add_left_eq)
    ultimately show "xs ! (((t + 1) mod length xs + i) mod length xs) = tl m ! i"
      using i by (simp add: nth_tl)
  qed
qed

lemma holds_pop_clear:
  assumes "holds xs t m" "m \<noteq> []" "t < length xs" "length m \<le> length xs"
  shows "holds (xs[t := v]) ((t + 1) mod length xs) (tl m)"
  unfolding holds_def
proof (intro allI impI)
  let ?c = "length xs"
  fix i assume i: "i < length (tl m)"
  have e: "((t + 1) mod ?c + i) mod ?c = (t + Suc i) mod ?c" by (simp add: mod_add_left_eq)
  have "(t + 0) mod ?c \<noteq> (t + Suc i) mod ?c"
    using i assms(4) by (intro ring_slot_neq) simp_all
  then have "t \<noteq> (t + Suc i) mod ?c" using assms(3) by simp
  then have "xs[t := v] ! ((t + Suc i) mod ?c) = xs ! ((t + Suc i) mod ?c)" by simp
  also have "\<dots> = m ! Suc i"
  proof -
    have "Suc i < length m" using i by simp
    then show ?thesis using assms(1) unfolding holds_def by blast
  qed
  finally show "xs[t := v] ! (((t + 1) mod length xs + i) mod length (xs[t := v])) = tl m ! i"
    using i e by (simp add: nth_tl)
qed

lemma vacant_push:
  assumes "vacant xs t n"
  shows "vacant (xs[(t + n) mod length xs := x]) t (Suc n)"
  unfolding vacant_def
proof (intro allI impI)
  fix j assume j: "j < length (xs[(t + n) mod length xs := x])"
    and o: "\<forall>i<Suc n. (t + i) mod length (xs[(t + n) mod length xs := x]) \<noteq> j"
  then have "(t + n) mod length xs \<noteq> j" by simp
  moreover have "\<forall>i<n. (t + i) mod length xs \<noteq> j" using o by simp
  ultimately show "xs[(t + n) mod length xs := x] ! j = None"
    using assms j by (simp add: vacant_def)
qed

lemma vacant_pop:
  assumes "vacant xs t n" "0 < n" "t < length xs"
  shows "vacant (xs[t := None]) ((t + 1) mod length xs) (n - 1)"
  unfolding vacant_def
proof (intro allI impI)
  let ?c = "length xs"
  fix j assume j: "j < length (xs[t := None])"
    and o: "\<forall>i<n - 1. ((t + 1) mod ?c + i) mod length (xs[t := None]) \<noteq> j"
  show "xs[t := None] ! j = None"
  proof (cases "j = t")
    case True then show ?thesis using assms(3) by simp
  next
    case False
    have "\<forall>i<n. (t + i) mod ?c \<noteq> j"
    proof (intro allI impI)
      fix i assume i: "i < n"
      show "(t + i) mod ?c \<noteq> j"
      proof (cases i)
        case 0 then show ?thesis using False assms(3) by simp
      next
        case (Suc i')
        then have "i' < n - 1" using i by simp
        then have "((t + 1) mod ?c + i') mod ?c \<noteq> j" using o by simp
        then show ?thesis using Suc by (simp add: mod_add_left_eq)
      qed
    qed
    then have "xs ! j = None" using assms(1) j by (simp add: vacant_def)
    then show ?thesis using False by simp
  qed
qed

lemma relP_ok: "relP r m \<Longrightarrow> ring_ok (length (itemsP r)) (maskP r) (tailP r) (headP r)"
  by (simp add: relP_def wfP_def)

lemma relP_Len: "relP r m \<Longrightarrow> unat (LenP r) = length m"
  using ring_ok_len[of "length (itemsP r)" "maskP r" "tailP r" "headP r"]
  by (simp add: relP_def wfP_def LenP_def)

lemma relP_length_lt: "relP r m \<Longrightarrow> length m < length (itemsP r)"
  using ring_count_lt[of "length (itemsP r)" "maskP r" "tailP r" "headP r"]
  by (auto simp: relP_def wfP_def)

lemma relP_Peek:
  assumes "relP r m" "i < length m"
  shows "PeekP (of_nat i) r = Some (m ! i, r)"
proof -
  let ?c = "length (itemsP r)"
  have ok: "ring_ok ?c (maskP r) (tailP r) (headP r)" using assms(1) by (rule relP_ok)
  have c: "?c \<le> 2 ^ 62" using ring_ok_bounds(2)[OF ok] .
  have lt: "length m < ?c" using assms(1) by (rule relP_length_lt)
  then have i: "unat (of_nat i :: 64 word) = i" using assms(2) c by (simp add: unat_of_nat)
  have n: "unat ((headP r - tailP r) AND maskP r) = length m"
    using relP_Len[OF assms(1)] by (simp add: LenP_def)
  have "\<not> (headP r - tailP r) AND maskP r \<le> of_nat i"
    using assms(2) by (simp add: word_le_nat_alt n i)
  moreover have j: "unat ((tailP r + of_nat i) AND maskP r) = (unat (tailP r) + i) mod ?c"
    using ring_ok_add[OF ok, of "of_nat i"] i assms(2) lt c by simp
  moreover have "(unat (tailP r) + i) mod ?c < ?c" using ring_ok_bounds(1)[OF ok] by simp
  moreover have "itemsP r ! ((unat (tailP r) + i) mod ?c) = m ! i"
    using assms unfolding relP_def holds_def by blast
  ultimately show ?thesis by (simp add: PeekP_def index_def Let_def)
qed

lemma wfP_Peek_absent:
  assumes "wfP r" "i <s 0 \<or> LenP r \<le>s i"
  shows "PeekP i r = Some (0, r)"
proof -
  let ?c = "length (itemsP r)"
  have ok: "ring_ok ?c (maskP r) (tailP r) (headP r)" using assms(1) by (simp add: wfP_def)
  have "unat (LenP r) < ?c"
    using ring_ok_len[OF ok] ring_count_lt[OF ok] by (simp add: LenP_def)
  then have "unat (LenP r) < 2 ^ 63" using ring_ok_bounds(2)[OF ok] by simp
  then have "LenP r \<le> i" using assms(2) by (rule signed_out_of_range)
  then show ?thesis by (simp add: PeekP_def LenP_def Let_def)
qed

lemma relP_Next_empty: "relP r [] \<Longrightarrow> NextP r = Some (0, r)"
  using relP_Len[of r "[]"] by (simp add: NextP_def unat_eq_0)

lemma relP_Next:
  assumes "relP r m" "m \<noteq> []"
  shows "\<exists>r'. NextP r = Some (hd m, r') \<and> relP r' (tl m) \<and> length (itemsP r') = length (itemsP r)
     \<and> maskP r' = maskP r"
proof -
  let ?c = "length (itemsP r)"
  let ?r' = "r\<lparr>tailP := (tailP r + 1) AND maskP r\<rparr>"
  have ok: "ring_ok ?c (maskP r) (tailP r) (headP r)" using assms(1) by (rule relP_ok)
  have t: "unat (tailP r) < ?c" using ring_ok_bounds(3)[OF ok] .
  have h: "holds (itemsP r) (unat (tailP r)) m" using assms(1) by (simp add: relP_def)
  have cnt: "ring_count ?c (tailP r) (headP r) = length m" using assms(1) by (simp add: relP_def)
  have "unat (LenP r) \<noteq> 0" using relP_Len[OF assms(1)] assms(2) by simp
  then have ne: "LenP r \<noteq> 0" by (simp add: unat_eq_0)
  have v: "itemsP r ! unat (tailP r) = hd m" using holds_pop(1)[OF h assms(2) t] .
  have "holds (itemsP r) ((unat (tailP r) + 1) mod ?c) (tl m)" using holds_pop(2)[OF h assms(2) t] .
  then have h': "holds (itemsP ?r') (unat (tailP ?r')) (tl m)"
    using ring_ok_succ[OF ok] by simp
  have ok': "ring_ok ?c (maskP r) ((tailP r + 1) AND maskP r) (headP r)"
    using ok by (rule ring_ok_tail_step)
  have cnt': "ring_count ?c ((tailP r + 1) AND maskP r) (headP r) = length (tl m)"
    using ring_count_tail_step[OF ok] cnt assms(2) by simp
  have "relP ?r' (tl m)" using ok' cnt' h' assms(1) by (simp add: relP_def wfP_def)
  moreover have "NextP r = Some (hd m, ?r')" using ne t v by (simp add: NextP_def index_def Let_def)
  ultimately show ?thesis by simp
qed

lemma relP_Add:
  assumes "relP r m"
  shows "\<exists>r'. AddP x r = Some r'
     \<and> relP r' ((if length m = length (itemsP r) - 1 then tl m else m) @ [x])
     \<and> length (itemsP r') = length (itemsP r) \<and> maskP r' = maskP r"
proof -
  let ?c = "length (itemsP r)"
  let ?m1 = "if length m = ?c - 1 then tl m else m"
  have ok: "ring_ok ?c (maskP r) (tailP r) (headP r)" using assms(1) by (rule relP_ok)
  have c2: "2 \<le> ?c" using assms by (simp add: relP_def wfP_def)
  have full: "IsFullP r \<longleftrightarrow> length m = ?c - 1"
    using relP_Len[OF assms] ring_ok_bounds(5)[OF ok] by (simp add: IsFullP_def word_unat_eq_iff)
  have "\<exists>r1. (if IsFullP r then map_option snd (NextP r) else Some r) = Some r1
     \<and> relP r1 ?m1 \<and> length (itemsP r1) = ?c \<and> maskP r1 = maskP r"
  proof (cases "length m = ?c - 1")
    case True
    then have "m \<noteq> []" using c2 by auto
    from relP_Next[OF assms this] True full show ?thesis by auto
  next
    case False
    then show ?thesis using assms full by simp
  qed
  then obtain r1 where r1: "(if IsFullP r then map_option snd (NextP r) else Some r) = Some r1"
    "relP r1 ?m1" "length (itemsP r1) = ?c" "maskP r1 = maskP r" by blast
  have lt: "length ?m1 + 1 < ?c" using relP_length_lt[OF assms] c2 by (auto split: if_splits)
  have ok1: "ring_ok ?c (maskP r) (tailP r1) (headP r1)" using relP_ok[OF r1(2)] r1(3,4) by simp
  have cnt1: "ring_count ?c (tailP r1) (headP r1) = length ?m1"
    using r1(2,3) by (simp add: relP_def)
  have h1: "holds (itemsP r1) (unat (tailP r1)) ?m1" using r1(2) by (simp add: relP_def)
  have hd: "unat (headP r1) < ?c" using ring_ok_bounds(4)[OF ok1] .
  have hpos: "unat (headP r1) = (unat (tailP r1) + length ?m1) mod length (itemsP r1)"
    using ring_ok_head[OF ok1] cnt1 r1(3) by simp
  let ?r' = "r1\<lparr>itemsP := (itemsP r1)[unat (headP r1) := x], headP := (headP r1 + 1) AND maskP r1\<rparr>"
  have "holds ((itemsP r1)[(unat (tailP r1) + length ?m1) mod length (itemsP r1) := x])
      (unat (tailP r1)) (?m1 @ [x])"
    using lt r1(3) by (intro holds_push[OF h1]) simp
  then have h': "holds (itemsP ?r') (unat (tailP ?r')) (?m1 @ [x])" using hpos by simp
  have ok': "ring_ok ?c (maskP r) (tailP r1) ((headP r1 + 1) AND maskP r)"
    using ok1 by (rule ring_ok_head_step)
  have cnt': "ring_count ?c (tailP r1) ((headP r1 + 1) AND maskP r) = length (?m1 @ [x])"
    using ring_count_head_step[OF ok1] cnt1 lt by simp
  have "relP ?r' (?m1 @ [x])" using ok' cnt' h' c2 r1(3,4) by (simp add: relP_def wfP_def)
  moreover have "AddP x r = Some ?r'" using r1(1,3) hd by (simp add: AddP_def store_def)
  ultimately show ?thesis using r1(3,4) by (intro exI[of _ ?r']) simp
qed

lemma nat_and_pred_pow2:
  fixes n :: nat
  assumes "n \<noteq> 0" "n AND (n - 1) = 0"
  shows "\<exists>k. n = 2 ^ k"
  using assms
proof (induction n rule: less_induct)
  case (less n)
  have r: "n AND (n - 1) = of_bool (odd n \<and> odd (n - 1)) + 2 * ((n div 2) AND ((n - 1) div 2))"
    by (rule and_rec)
  then have z: "(n div 2) AND ((n - 1) div 2) = 0" using less.prems(2) by simp
  show ?case
  proof (cases "even n")
    case True
    then obtain q where q: "n = 2 * q" by (auto elim: evenE)
    then have q0: "q \<noteq> 0" using less.prems(1) by simp
    have "(n - 1) div 2 = q - 1" using q q0 by (cases q) simp_all
    then have "q AND (q - 1) = 0" using z q by simp
    moreover have "q < n" using q q0 by simp
    ultimately obtain k where "q = 2 ^ k" using less.IH q0 by blast
    then have "n = 2 ^ Suc k" using q by simp
    then show ?thesis by blast
  next
    case False
    then obtain q where q: "n = 2 * q + 1" by (auto elim: oddE)
    then have "q AND q = 0" using z by simp
    then have "n = 2 ^ 0" using q by simp
    then show ?thesis by blast
  qed
qed

lemma word_and_pred_pow2:
  fixes x :: "64 word"
  assumes "x AND (x - 1) = 0" "\<not> x <s 2"
  shows "\<exists>k. 1 \<le> k \<and> k \<le> 62 \<and> x = 2 ^ k \<and> sint x = 2 ^ k"
proof -
  have s2: "2 \<le> sint x" using assms(2) by (simp add: word_sless_alt)
  have small: "unat x < 2 ^ 63"
  proof (rule ccontr)
    assume "\<not> unat x < 2 ^ 63"
    then have "sint x < 0" by (intro sint_neg) simp
    then show False using s2 by simp
  qed
  then have su: "sint x = uint x" by (rule sint_small)
  then have u2: "2 \<le> unat x" using s2 by (simp add: nat_int_comparison)
  then have x0: "x \<noteq> 0" by auto
  have "unat (x AND (x - 1)) = unat x AND unat (x - 1)" by (rule unsigned_and_eq)
  then have "unat x AND (unat x - 1) = 0" using assms(1) x0 by (simp add: unat_minus_one)
  moreover have "unat x \<noteq> 0" using u2 by simp
  ultimately obtain k where k: "unat x = 2 ^ k" using nat_and_pred_pow2 by blast
  have "k \<noteq> 0" using k u2 by (cases k) simp_all
  moreover have "k \<le> 62"
  proof (rule ccontr)
    assume "\<not> k \<le> 62"
    then have "63 \<le> k" by simp
    then have "(2::nat) ^ 63 \<le> 2 ^ k" by (intro power_increasing) simp_all
    then show False using small k by simp
  qed
  moreover have "x = 2 ^ k"
  proof -
    have "x = of_nat (unat x)" by simp
    also have "\<dots> = of_nat (2 ^ k)" by (simp only: k)
    finally show ?thesis by simp
  qed
  moreover have "sint x = 2 ^ k"
  proof -
    have "int (unat x) = int (2 ^ k)" by (simp only: k)
    then show ?thesis using su by simp
  qed
  ultimately show ?thesis by (intro exI[of _ k]) simp
qed

lemma NewRingP_rel:
  assumes "NewRingP s = Some (r :: 'a::zero RingP)"
  shows "relP r [] \<and> length (itemsP r) = nat (sint s) \<and> unat (maskP r) = length (itemsP r) - 1"
proof -
  from assms have a: "s AND (s - 1) = 0" "\<not> s <s 2"
    and r: "r = \<lparr>itemsP = replicate (nat (sint s)) 0, maskP = s - 1, tailP = 0, headP = 0\<rparr>"
    by (auto simp: NewRingP_def split: if_splits)
  from word_and_pred_pow2[OF a] obtain k where k: "1 \<le> k" "k \<le> 62" "s = 2 ^ k" "sint s = 2 ^ k"
    by blast
  have l: "length (itemsP r) = 2 ^ k" using r k(4) by simp
  have m: "maskP r = mask k" using r k(3) by (simp add: mask_eq_exp_minus_1)
  have ok: "ring_ok (length (itemsP r)) (maskP r) (tailP r) (headP r)"
    unfolding ring_ok_def using k(2) l m r by (intro exI[of _ k]) simp
  have "(2::nat) ^ 1 \<le> 2 ^ k" using k(1) by (intro power_increasing) simp_all
  then have "2 \<le> length (itemsP r)" using l by simp
  then have "relP r []" using ok r by (simp add: relP_def wfP_def ring_count_def holds_def)
  moreover have "unat (maskP r) = length (itemsP r) - 1" using ring_ok_bounds(5)[OF ok] .
  moreover have "length (itemsP r) = nat (sint s)" using r by simp
  ultimately show ?thesis by simp
qed

lemma lastn_tl:
  assumes "m = lastn (length m) ins"
  shows "tl m = lastn (length (tl m)) ins"
proof (cases "m = []")
  case True then show ?thesis by (simp add: lastn_def)
next
  case False
  have le: "length m \<le> length ins"
  proof -
    have "length m = length (lastn (length m) ins)" using assms by simp
    then show ?thesis by (simp add: lastn_def)
  qed
  have "tl m = tl (drop (length ins - length m) ins)" using assms by (simp add: lastn_def)
  also have "\<dots> = drop (Suc (length ins - length m)) ins" by (simp add: drop_Suc drop_tl)
  also have "Suc (length ins - length m) = length ins - length (tl m)"
    using le False by (cases m) simp_all
  finally show ?thesis by (simp add: lastn_def)
qed

lemma lastn_snoc:
  assumes "m = lastn (length m) ins"
  shows "m @ [x] = lastn (length (m @ [x])) (ins @ [x])"
proof -
  have le: "length m \<le> length ins"
  proof -
    have "length m = length (lastn (length m) ins)" using assms by simp
    then show ?thesis by (simp add: lastn_def)
  qed
  have "lastn (length (m @ [x])) (ins @ [x]) = drop (length ins - length m) ins @ [x]"
    using le by (simp add: lastn_def)
  then show ?thesis using assms by (simp add: lastn_def)
qed

lemma relP_content: "relP r m \<Longrightarrow> contentP r = map Some m"
proof -
  assume a: "relP r m"
  have "\<And>i. i < length m \<Longrightarrow> map_option fst (PeekP (of_nat i) r) = Some (m ! i)"
    using relP_Peek[OF a] by simp
  then show ?thesis using relP_Len[OF a] by (auto simp: contentP_def intro!: nth_equalityI)
qed

lemma runP_rel:
  assumes "relP r m" "m = lastn (length m) ins"
  shows "\<exists>r' m'. runP ops r = Some r' \<and> relP r' m'
     \<and> m' = survivors (length (itemsP r) - 1) ops m
     \<and> m' = lastn (length m') (ins @ inserted ops)
     \<and> (only_adds ops \<longrightarrow> length m' = min (length (itemsP r) - 1) (length m + length ops))
     \<and> length (itemsP r') = length (itemsP r) \<and> maskP r' = maskP r"
  using assms
proof (induction ops arbitrary: r m ins)
  case Nil
  then show ?case using relP_length_lt[of r m] by auto
next
  case (Cons op ops)
  show ?case
  proof (cases op)
    case (Add x)
    let ?m1 = "(if length m = length (itemsP r) - 1 then tl m else m) @ [x]"
    from relP_Add[OF Cons.prems(1), of x] obtain r1 where r1: "AddP x r = Some r1"
      "relP r1 ?m1" "length (itemsP r1) = length (itemsP r)" "maskP r1 = maskP r" by blast
    have s: "?m1 = lastn (length ?m1) (ins @ [x])"
      using lastn_snoc[OF Cons.prems(2)] lastn_snoc[OF lastn_tl[OF Cons.prems(2)]] by simp
    from Cons.IH[OF r1(2) s] obtain r' m' where r': "runP ops r1 = Some r'" "relP r' m'"
      "m' = survivors (length (itemsP r1) - 1) ops ?m1"
      "m' = lastn (length m') ((ins @ [x]) @ inserted ops)"
      "only_adds ops \<longrightarrow> length m' = min (length (itemsP r1) - 1) (length ?m1 + length ops)"
      "length (itemsP r') = length (itemsP r1)" "maskP r' = maskP r1" by blast
    have c2: "2 \<le> length (itemsP r)" using Cons.prems(1) by (simp add: relP_def wfP_def)
    have "only_adds (op # ops) \<longrightarrow>
       length m' = min (length (itemsP r) - 1) (length m + length (op # ops))"
      using r'(5) r1(3) Add relP_length_lt[OF Cons.prems(1)] c2 by (auto simp: min_def)
    moreover have "m' = survivors (length (itemsP r) - 1) (op # ops) m"
      using r'(3) r1(3) Add by simp
    ultimately show ?thesis using r1 r'(1,2,4,6,7) Add by (intro exI[of _ r'] exI[of _ m']) simp
  next
    case Next
    have "\<exists>r1. NextP r = Some (x0, r1) \<and> relP r1 (tl m) \<and> length (itemsP r1) = length (itemsP r)
       \<and> maskP r1 = maskP r" if "x0 = (if m = [] then 0 else hd m)" for x0
      using relP_Next[OF Cons.prems(1)] relP_Next_empty[of r] Cons.prems(1) that
      by (cases "m = []") auto
    then obtain x0 r1 where r1: "NextP r = Some (x0, r1)" "relP r1 (tl m)"
      "length (itemsP r1) = length (itemsP r)" "maskP r1 = maskP r" by blast
    from Cons.IH[OF r1(2) lastn_tl[OF Cons.prems(2)]] obtain r' m' where
      r': "runP ops r1 = Some r'" "relP r' m'"
      "m' = survivors (length (itemsP r1) - 1) ops (tl m)"
      "m' = lastn (length m') (ins @ inserted ops)"
      "length (itemsP r') = length (itemsP r1)" "maskP r' = maskP r1" by blast
    then show ?thesis using r1 Next by (intro exI[of _ r'] exI[of _ m']) simp
  qed
qed

lemma only_adds_inserted: "only_adds ops \<Longrightarrow> length (inserted ops) = length ops"
  by (induction ops rule: only_adds.induct) simp_all

text \<open>
  Claim C6, as amended. On every ring that \<open>NewRingP\<close> returns and for every sequence of
  \<open>Add\<close> and \<open>Next\<close>: no call panics, \<open>Len\<close> never exceeds the capacity \<open>C\<close>, and the
  logical content \<open>Peek(0), \<dots>, Peek(Len - 1)\<close> is exactly the content of the first-in
  first-out queue bounded by \<open>C\<close> that ran the same sequence: an \<open>Add\<close> appends its value,
  after dropping the oldest element when the queue holds \<open>C\<close> elements; a \<open>Next\<close> drops the
  oldest element and leaves an empty queue empty. So the content is always the last \<open>Len\<close>
  inserted values in insertion order, and when the sequence holds no \<open>Next\<close>, \<open>Len\<close> is the
  smaller of \<open>C\<close> and the number of inserts and the content is the last \<open>C\<close> inserted values.
  The storage keeps its length: an \<open>Add\<close> on a full ring evicts and never grows.
\<close>

theorem BoundedRing_content:
  assumes "NewRingP sizePlus1 = Some r0"
  shows "\<exists>r. runP ops r0 = Some r
     \<and> unat (LenP r) \<le> unat (CapacityP r0)
     \<and> contentP r = map Some (survivors (unat (CapacityP r0)) ops [])
     \<and> contentP r = map Some (lastn (unat (LenP r)) (inserted ops))
     \<and> (only_adds ops \<longrightarrow> unat (LenP r) = min (unat (CapacityP r0)) (length ops)
           \<and> contentP r = map Some (lastn (unat (CapacityP r0)) (inserted ops)))
     \<and> length (itemsP r) = length (itemsP r0) \<and> CapacityP r = CapacityP r0"
proof -
  from NewRingP_rel[OF assms] have r0: "relP r0 []"
    "unat (maskP r0) = length (itemsP r0) - 1" by simp_all
  have C: "unat (CapacityP r0) = length (itemsP r0) - 1" using r0(2) by (simp add: CapacityP_def)
  have "[] = lastn (length ([]::'a list)) []" by (simp add: lastn_def)
  from runP_rel[OF r0(1) this, of ops] obtain r m where r: "runP ops r0 = Some r" "relP r m"
    "m = survivors (length (itemsP r0) - 1) ops []"
    "m = lastn (length m) (inserted ops)"
    "only_adds ops \<longrightarrow> length m = min (length (itemsP r0) - 1) (length ops)"
    "length (itemsP r) = length (itemsP r0)" "maskP r = maskP r0" by auto
  have l: "unat (LenP r) = length m" using r(2) by (rule relP_Len)
  have "length m < length (itemsP r0)" using relP_length_lt[OF r(2)] r(6) by simp
  then have le: "unat (LenP r) \<le> unat (CapacityP r0)" using l C by simp
  have fifo: "contentP r = map Some (survivors (unat (CapacityP r0)) ops [])"
    using relP_content[OF r(2)] r(3) C by simp
  have last: "contentP r = map Some (lastn (unat (LenP r)) (inserted ops))"
    using relP_content[OF r(2)] l r(4) by simp
  have adds: "only_adds ops \<longrightarrow> unat (LenP r) = min (unat (CapacityP r0)) (length ops)
           \<and> contentP r = map Some (lastn (unat (CapacityP r0)) (inserted ops))"
  proof
    assume o: "only_adds ops"
    have n: "unat (LenP r) = min (unat (CapacityP r0)) (length ops)" using r(5) o l C by simp
    have "lastn (min (unat (CapacityP r0)) (length ops)) (inserted ops)
        = lastn (unat (CapacityP r0)) (inserted ops)"
      using only_adds_inserted[OF o] by (simp add: lastn_def min_def)
    then show "unat (LenP r) = min (unat (CapacityP r0)) (length ops)
           \<and> contentP r = map Some (lastn (unat (CapacityP r0)) (inserted ops))"
      using n last by simp
  qed
  have cap: "CapacityP r = CapacityP r0" using r(7) by (simp add: CapacityP_def)
  show ?thesis
    by (intro exI[of _ r] conjI) (rule r(1), rule le, rule fifo, rule last, rule adds, rule r(6), rule cap)
qed

text \<open>
  Capacity 3. The scenario of the specification: insert 1 to 5, content 3, 4, 5. A sequence
  with removes: insert 1, 2, remove (from a ring that is not full), insert 3, 4, 5 (the last
  insert evicts 2), remove: content 4, 5.
\<close>

theorem BoundedRing_content_witness:
  "NewRingP 4 = Some \<lparr>itemsP = [0, 0, 0, 0 :: nat], maskP = 3, tailP = 0, headP = 0\<rparr>
   \<and> only_adds [Add (1::nat), Add 2, Add 3, Add 4, Add 5]
   \<and> (\<exists>r. runP [Add 1, Add 2, Add 3, Add 4, Add 5]
          \<lparr>itemsP = [0, 0, 0, 0 :: nat], maskP = 3, tailP = 0, headP = 0\<rparr> = Some r
        \<and> unat (LenP r) = 3 \<and> contentP r = [Some 3, Some 4, Some 5]
        \<and> length (itemsP r) = 4)
   \<and> (\<exists>r. runP [Add 1, Add 2, Next, Add 3, Add 4, Add 5, Next]
          \<lparr>itemsP = [0, 0, 0, 0 :: nat], maskP = 3, tailP = 0, headP = 0\<rparr> = Some r
        \<and> contentP r = [Some 4, Some 5]
        \<and> length (itemsP r) = 4)"
proof -
  let ?init = "\<lparr>itemsP = [0, 0, 0, 0 :: nat], maskP = 3, tailP = 0, headP = 0\<rparr>"
  let ?ops = "[Add (1::nat), Add 2, Add 3, Add 4, Add 5]"
  let ?ops2 = "[Add (1::nat), Add 2, Next, Add 3, Add 4, Add 5, Next]"
  have n: "NewRingP 4 = Some ?init"
    by (simp add: NewRingP_def word_sless_alt numeral_eq_Suc)
  have o: "only_adds ?ops" by simp
  have c: "unat (CapacityP ?init) = 3" by (simp add: CapacityP_def)
  from BoundedRing_content[OF n, of ?ops] o obtain r where r: "runP ?ops ?init = Some r"
    "contentP r = map Some (survivors (unat (CapacityP ?init)) ?ops [])"
    "unat (LenP r) = min (unat (CapacityP ?init)) (length ?ops)"
    "length (itemsP r) = length (itemsP ?init)"
    by blast
  have l: "unat (LenP r) = 3" using r(3) unfolding c by simp
  have cr: "contentP r = [Some 3, Some 4, Some 5]" unfolding r(2) c by simp
  have A: "\<exists>r. runP ?ops ?init = Some r \<and> unat (LenP r) = 3
      \<and> contentP r = [Some 3, Some 4, Some 5] \<and> length (itemsP r) = 4"
    using r(1,4) l cr by (intro exI[of _ r]) simp
  from BoundedRing_content[OF n, of ?ops2] obtain q where q: "runP ?ops2 ?init = Some q"
    "contentP q = map Some (survivors (unat (CapacityP ?init)) ?ops2 [])"
    "length (itemsP q) = length (itemsP ?init)"
    by blast
  have cq: "contentP q = [Some 4, Some 5]" unfolding q(2) c by simp
  have B: "\<exists>r. runP ?ops2 ?init = Some r \<and> contentP r = [Some 4, Some 5]
      \<and> length (itemsP r) = 4"
    using q(1,3) cq by (intro exI[of _ q]) simp
  show ?thesis by (intro conjI) (rule n, rule o, rule A, rule B)
qed

text \<open>
  After a \<open>Next\<close> the content is no longer the last \<open>C\<close> inserted values: one insert and
  one remove leave the ring empty, while the last three inserted values are \<open>[1]\<close>.
\<close>

theorem BoundedRing_last_C_counterexample:
  "map_option contentP (NewRingP 4 \<bind> runP [Add (1::nat), Next])
     \<noteq> Some (map Some (lastn 3 (inserted [Add (1::nat), Next])))"
  by (simp add: NewRingP_def word_sless_alt AddP_def IsFullP_def LenP_def NextP_def store_def
      index_def contentP_def lastn_def)

lemma relT_cases:
  assumes "relT r m"
  obtains (empty) "itemsT r = []" "maskT r = 0" "tailT r = 0" "headT r = 0" "m = []"
  | (alloc) "ring_ok (length (itemsT r)) (maskT r) (tailT r) (headT r)" "2 \<le> length (itemsT r)"
proof -
  from assms have "wfT r" by (simp add: relT_def)
  then show ?thesis
  proof (unfold wfT_def, elim disjE conjE)
    assume e: "itemsT r = []" "maskT r = 0" "tailT r = 0" "headT r = 0"
    then have "m = []" using assms by (simp add: relT_def ring_count_def)
    with e show ?thesis by (rule empty)
  next
    assume "ring_ok (length (itemsT r)) (maskT r) (tailT r) (headT r)" "2 \<le> length (itemsT r)"
    then show ?thesis by (rule alloc)
  qed
qed

lemma relT_Len:
  assumes "relT r m"
  shows "unat (LenT r) = length m"
  using assms
proof (cases rule: relT_cases)
  case empty
  then show ?thesis by (simp add: LenT_def)
next
  case alloc
  show ?thesis using ring_ok_len[OF alloc(1)] assms by (simp add: relT_def LenT_def)
qed

lemma relT_small:
  assumes "relT r m"
  shows "length m < 2 ^ 62"
  using assms
proof (cases rule: relT_cases)
  case empty
  then show ?thesis by simp
next
  case alloc
  show ?thesis using ring_count_lt[OF alloc(1)] ring_ok_bounds(2)[OF alloc(1)] assms
    by (simp add: relT_def)
qed

lemma relT_Peek:
  assumes "relT r m" "i < length m"
  shows "PeekT (of_nat i) r = Some (m ! i, r)"
proof -
  let ?c = "length (itemsT r)"
  have ok: "ring_ok ?c (maskT r) (tailT r) (headT r)"
    using assms by (auto elim: relT_cases)
  have c: "?c \<le> 2 ^ 62" using ring_ok_bounds(2)[OF ok] .
  have "ring_count ?c (tailT r) (headT r) < ?c" using ok by (rule ring_count_lt)
  then have lt: "length m < ?c" using assms(1) by (simp add: relT_def)
  then have i: "unat (of_nat i :: 64 word) = i" using assms(2) c by (simp add: unat_of_nat)
  have n: "unat ((headT r - tailT r) AND maskT r) = length m"
    using relT_Len[OF assms(1)] by (simp add: LenT_def)
  have "\<not> (headT r - tailT r) AND maskT r \<le> of_nat i"
    using assms(2) by (simp add: word_le_nat_alt n i)
  moreover have j: "unat ((tailT r + of_nat i) AND maskT r) = (unat (tailT r) + i) mod ?c"
    using ring_ok_add[OF ok, of "of_nat i"] i assms(2) lt c by simp
  moreover have "(unat (tailT r) + i) mod ?c < ?c" using ring_ok_bounds(1)[OF ok] by simp
  moreover have "itemsT r ! ((unat (tailT r) + i) mod ?c) = m ! i"
    using assms unfolding relT_def holds_def by blast
  ultimately show ?thesis by (simp add: PeekT_def index_def Let_def)
qed

lemma relT_Peek_absent:
  assumes "relT r m" "i <s 0 \<or> LenT r \<le>s i"
  shows "PeekT i r = Some (None, r)"
proof -
  have "unat (LenT r) < 2 ^ 63" using relT_Len[OF assms(1)] relT_small[OF assms(1)] by simp
  then have "LenT r \<le> i" using assms(2) by (rule signed_out_of_range)
  then show ?thesis by (simp add: PeekT_def LenT_def Let_def)
qed

lemma relT_Next_empty: "relT r [] \<Longrightarrow> NextT r = Some (None, r)"
  using relT_Len[of r "[]"] by (simp add: NextT_def unat_eq_0)

lemma relT_Next:
  assumes "relT r m" "m \<noteq> []"
  shows "\<exists>r'. NextT r = Some (hd m, r') \<and> relT r' (tl m)
     \<and> length (itemsT r') = length (itemsT r) \<and> maskT r' = maskT r
     \<and> maxSizeT r' = maxSizeT r"
proof -
  let ?c = "length (itemsT r)"
  let ?t = "unat (tailT r)"
  let ?r' = "r\<lparr>tailT := (tailT r + 1) AND maskT r, itemsT := (itemsT r)[?t := None]\<rparr>"
  have ok: "ring_ok ?c (maskT r) (tailT r) (headT r)" and c2: "2 \<le> ?c"
    using assms by (auto elim: relT_cases)
  have t: "?t < ?c" using ring_ok_bounds(3)[OF ok] .
  have h: "holds (itemsT r) ?t m" using assms(1) by (simp add: relT_def)
  have va: "vacant (itemsT r) ?t (length m)" using assms(1) by (simp add: relT_def)
  have cnt: "ring_count ?c (tailT r) (headT r) = length m" using assms(1) by (simp add: relT_def)
  have le: "length m \<le> ?c" using ring_count_lt[OF ok] cnt by simp
  have "unat (LenT r) \<noteq> 0" using relT_Len[OF assms(1)] assms(2) by simp
  then have ne: "LenT r \<noteq> 0" by (simp add: unat_eq_0)
  have v: "itemsT r ! ?t = hd m" using holds_pop(1)[OF h assms(2) t] .
  have t': "unat ((tailT r + 1) AND maskT r) = (?t + 1) mod ?c" using ring_ok_succ[OF ok] .
  have h': "holds (itemsT ?r') (unat (tailT ?r')) (tl m)"
    using holds_pop_clear[OF h assms(2) t le, of None] t' by simp
  have va': "vacant (itemsT ?r') (unat (tailT ?r')) (length (tl m))"
    using vacant_pop[OF va _ t] assms(2) t' by simp
  have ok': "ring_ok ?c (maskT r) ((tailT r + 1) AND maskT r) (headT r)"
    using ok by (rule ring_ok_tail_step)
  have cnt': "ring_count ?c ((tailT r + 1) AND maskT r) (headT r) = length (tl m)"
    using ring_count_tail_step[OF ok] cnt assms(2) by simp
  have "length (tl m) \<le> unat (maxSizeT r)" "1 \<le>s maxSizeT r"
    using assms(1) by (auto simp: relT_def)
  then have "relT ?r' (tl m)" using ok' cnt' h' va' c2 by (simp add: relT_def wfT_def)
  moreover have "NextT r = Some (hd m, ?r')"
    using ne t v by (simp add: NextT_def index_def store_def Let_def)
  ultimately show ?thesis by (intro exI[of _ ?r']) simp
qed

lemma relT_drain:
  assumes "relT r m" "k \<le> length m" "i0 + k \<le> length new" "length new < 2 ^ 64"
  shows "\<exists>r'. drainT k (of_nat i0) r new = Some (r', take i0 new @ take k m @ drop (i0 + k) new)
     \<and> maxSizeT r' = maxSizeT r"
  using assms
proof (induction k arbitrary: r m i0 new)
  case 0
  then show ?case by simp
next
  case (Suc k)
  then have ne: "m \<noteq> []" by auto
  from relT_Next[OF Suc.prems(1) ne] obtain r1 where r1: "NextT r = Some (hd m, r1)"
    "relT r1 (tl m)" "maxSizeT r1 = maxSizeT r" by blast
  have i0: "unat (of_nat i0 :: 64 word) = i0" "i0 < length new"
    using Suc.prems(3,4) by (simp_all add: unat_of_nat)
  then have st: "store new (of_nat i0) (hd m) = Some (new[i0 := hd m])" by (simp add: store_def)
  have "k \<le> length (tl m)" "Suc i0 + k \<le> length (new[i0 := hd m])"
    "length (new[i0 := hd m]) < 2 ^ 64" using Suc.prems by simp_all
  from Suc.IH[OF r1(2) this] obtain r' where r': "drainT k (of_nat (Suc i0)) r1 (new[i0 := hd m])
      = Some (r', take (Suc i0) (new[i0 := hd m]) @ take k (tl m) @ drop (Suc i0 + k) (new[i0 := hd m]))"
    "maxSizeT r' = maxSizeT r1" by blast
  have a: "take (Suc i0) (new[i0 := hd m]) = take i0 new @ [hd m]"
    using i0(2) by (simp add: take_Suc_conv_app_nth)
  have b: "take (Suc k) m = hd m # take k (tl m)" using ne by (cases m) simp_all
  have c: "of_nat i0 + 1 = (of_nat (Suc i0) :: 64 word)" by simp
  have "drainT (Suc k) (of_nat i0) r new
      = Some (r', take i0 new @ take (Suc k) m @ drop (i0 + Suc k) new)"
    using r1(1) st r'(1) a b by (simp add: c del: of_nat_Suc)
  then show ?case using r'(2) r1(3) by auto
qed

lemma sint_of_nat_small: "n < 2 ^ 63 \<Longrightarrow> sint (of_nat n :: 64 word) = int n"
proof -
  assume a: "n < 2 ^ 63"
  then have u: "unat (of_nat n :: 64 word) = n" by (simp add: unat_of_nat)
  then have "sint (of_nat n :: 64 word) = uint (of_nat n :: 64 word)"
    using a by (intro sint_small) simp
  also have "\<dots> = int (unat (of_nat n :: 64 word))" by simp
  finally show ?thesis by (simp only: u)
qed

lemma holds_fresh:
  assumes "length m \<le> c"
  shows "holds (m @ replicate (c - length m) v) 0 m"
  using assms by (auto simp: holds_def nth_append)

lemma vacant_fresh:
  assumes "length m \<le> c"
  shows "vacant (m @ replicate (c - length m) None) 0 (length m)"
  unfolding vacant_def
proof (intro allI impI)
  fix j assume j: "j < length (m @ replicate (c - length m) None)"
    and o: "\<forall>i<length m. (0 + i) mod length (m @ replicate (c - length m) None) \<noteq> j"
  have "\<not> j < length m"
  proof
    assume "j < length m"
    moreover from this have "(0 + j) mod length (m @ replicate (c - length m) None) = j"
      using assms by simp
    ultimately show False using o by blast
  qed
  then show "(m @ replicate (c - length m) None) ! j = None" using j by (simp add: nth_append)
qed

text \<open>The doubled size, with its floor \<open>f\<close> (2 or 4), as \<open>growT\<close> and \<open>growW\<close> compute it.\<close>

lemma new_size:
  fixes f c :: nat and fw :: "64 word"
  assumes "c \<le> 2 ^ 61" "length xs = c" "fw = of_nat f" "f < 2 ^ 63"
  shows "(if len xs * 2 <s fw then fw else len xs * 2) = of_nat (max f (2 * c))"
proof -
  have c2: "2 * c < 2 ^ 63" using assms(1) by simp
  have e: "len xs * 2 = (of_nat (2 * c) :: 64 word)" using assms(2) by (simp add: len_def)
  have "(of_nat (2 * c) :: 64 word) <s of_nat f \<longleftrightarrow> int (2 * c) < int f"
    by (simp only: word_sless_alt sint_of_nat_small[OF c2] sint_of_nat_small[OF assms(4)])
  also have "\<dots> \<longleftrightarrow> 2 * c < f" by (simp only: of_nat_less_iff)
  finally show ?thesis unfolding e assms(3) by (simp add: max_def)
qed

lemma relT_grow:
  assumes "relT r m" "itemsT r = [] \<or> length m = length (itemsT r) - 1" "length m < 2 ^ 61"
  shows "\<exists>g. growT r = Some g \<and> relT g m
     \<and> itemsT g = m @ replicate (max 2 (2 * length (itemsT r)) - length m) None
     \<and> length (itemsT g) = max 2 (2 * length (itemsT r))
     \<and> tailT g = 0 \<and> headT g = LenT r \<and> maxSizeT g = maxSizeT r"
proof -
  let ?c = "length (itemsT r)"
  let ?c' = "max 2 (2 * ?c)"
  have "\<exists>k. 1 \<le> k \<and> k \<le> 62 \<and> ?c' = 2 ^ k \<and> ?c \<le> 2 ^ 61 \<and> length m < ?c'"
    using assms(1)
  proof (cases rule: relT_cases)
    case empty
    then show ?thesis by (intro exI[of _ 1]) simp
  next
    case alloc
    then obtain k where k: "k \<le> 62" "?c = 2 ^ k" by (auto simp: ring_ok_def)
    have m: "length m = ?c - 1" using assms(2) alloc(2) by auto
    then have c: "?c \<le> 2 ^ 61" using assms(3) alloc(2) by simp
    have "k \<le> 61"
    proof (rule ccontr)
      assume "\<not> k \<le> 61"
      then have "62 \<le> k" by simp
      then have "(2::nat) ^ 62 \<le> 2 ^ k" by (intro power_increasing) simp_all
      then show False using c k(2) by simp
    qed
    moreover have "?c' = 2 ^ Suc k" using k(2) alloc(2) by simp
    ultimately show ?thesis using c m alloc(2) by (intro exI[of _ "Suc k"]) simp
  qed
  then obtain k where k: "1 \<le> k" "k \<le> 62" "?c' = 2 ^ k" "?c \<le> 2 ^ 61" "length m < ?c'"
    by blast
  have c'62: "?c' \<le> 2 ^ 62" using k(2,3) pow2_le_62 by simp
  define newSize :: "64 word" where "newSize = of_nat ?c'"
  have ns: "(if len (itemsT r) * 2 <s 2 then 2 else len (itemsT r) * 2) = newSize"
    unfolding newSize_def by (rule new_size[OF k(4) refl]) simp_all
  have sn: "nat (sint newSize) = ?c'"
    unfolding newSize_def using c'62 by (subst sint_of_nat_small) simp_all
  have "unat (LenT r) = length m" using assms(1) by (rule relT_Len)
  moreover from this have "sint (LenT r) = uint (LenT r)"
    using assms(3) by (intro sint_small) simp
  ultimately have sl: "nat (sint (LenT r)) = length m" by simp
  have "length (replicate ?c' (None :: 'a option)) < 2 ^ 64" using c'62 by simp
  from relT_drain[OF assms(1) le_refl, of 0 "replicate ?c' None", OF _ this] k(5)
  obtain r' where r': "drainT (length m) 0 r (replicate ?c' None)
      = Some (r', m @ replicate (?c' - length m) None)" "maxSizeT r' = maxSizeT r"
    by auto
  let ?g = "r'\<lparr>itemsT := m @ replicate (?c' - length m) None, maskT := newSize - 1,
       tailT := 0, headT := LenT r\<rparr>"
  have g: "growT r = Some ?g"
    unfolding growT_def Let_def ns sn sl using r'(1) by simp
  have mk: "newSize - 1 = mask k"
    unfolding newSize_def by (simp only: k(3)) (simp add: mask_eq_exp_minus_1)
  have ok: "ring_ok ?c' (newSize - 1) 0 (LenT r)"
    unfolding ring_ok_def mk using k \<open>unat (LenT r) = length m\<close>
    by (intro exI[of _ k]) simp
  have cnt: "ring_count ?c' 0 (LenT r) = length m"
    using \<open>unat (LenT r) = length m\<close> by (simp add: ring_count_def)
  have len: "length (m @ replicate (?c' - length m) (None :: 'a option)) = ?c'" using k(5) by simp
  have "holds (m @ replicate (?c' - length m) None) 0 m" using k(5) by (intro holds_fresh) simp
  moreover have "vacant (m @ replicate (?c' - length m) None) 0 (length m)"
    using k(5) by (intro vacant_fresh) simp
  moreover have "1 \<le>s maxSizeT r" "length m \<le> unat (maxSizeT r)"
    using assms(1) by (auto simp: relT_def)
  ultimately have "relT ?g m"
    using ok cnt len r'(2) unfolding relT_def wfT_def by simp
  then show ?thesis using g len r'(2) by (intro exI[of _ ?g]) simp
qed

lemma sle_one_unat: "(1 :: 64 word) \<le>s M \<Longrightarrow> 1 \<le> unat M"
proof -
  assume "(1 :: 64 word) \<le>s M"
  then have "1 \<le> sint M" by (simp add: word_sle_eq)
  then have "M \<noteq> 0" by auto
  then show ?thesis by (simp add: unat_gt_0 Suc_le_eq)
qed

lemma len_eq_0: "length xs < 2 ^ 64 \<Longrightarrow> len xs = 0 \<longleftrightarrow> xs = []"
  using unat_len[of xs] by (auto simp: unat_eq_0[symmetric] simp del: unat_eq_0)

lemma ring_ok_len_pred:
  assumes "ring_ok (length xs) m t h"
  shows "len xs - 1 = m" "length xs < 2 ^ 64"
proof -
  from assms obtain k where k: "k \<le> 62" "length xs = 2 ^ k" "m = mask k" by (auto simp: ring_ok_def)
  show "len xs - 1 = m" using len_mask[OF k(2)] k(3) by simp
  have "(2::nat) ^ k \<le> 2 ^ 62" using k(1) by (rule pow2_le_62)
  then show "length xs < 2 ^ 64" using k(2) by simp
qed

lemma relT_trigger:
  assumes "relT r m"
  shows "(len (itemsT r) = 0 \<or> LenT r = len (itemsT r) - 1)
     \<longleftrightarrow> (itemsT r = [] \<or> length m = length (itemsT r) - 1)"
  using assms
proof (cases rule: relT_cases)
  case empty
  then show ?thesis by (simp add: len_def)
next
  case alloc
  have ne: "itemsT r \<noteq> []" using alloc(2) by auto
  have l0: "len (itemsT r) \<noteq> 0" using len_eq_0[OF ring_ok_len_pred(2)[OF alloc(1)]] ne by simp
  have "len (itemsT r) - 1 = maskT r" using alloc(1) by (rule ring_ok_len_pred)
  then have "unat (len (itemsT r) - 1) = length (itemsT r) - 1"
    using ring_ok_bounds(5)[OF alloc(1)] by simp
  then have "LenT r = len (itemsT r) - 1 \<longleftrightarrow> length m = length (itemsT r) - 1"
    using relT_Len[OF assms] by (simp add: word_unat_eq_iff)
  then show ?thesis using ne l0 by simp
qed

lemma relT_Add:
  assumes "relT r m"
    and "length (if length m = unat (maxSizeT r) then tl m else m) < 2 ^ 61"
  shows "\<exists>r'. AddT x r = Some r'
     \<and> relT r' ((if length m = unat (maxSizeT r) then tl m else m) @ [x])
     \<and> maxSizeT r' = maxSizeT r"
proof -
  let ?m1 = "if length m = unat (maxSizeT r) then tl m else m"
  have M1: "1 \<le> unat (maxSizeT r)" using assms(1) by (intro sle_one_unat) (simp add: relT_def)
  have mM: "length m \<le> unat (maxSizeT r)" using assms(1) by (simp add: relT_def)
  have full: "LenT r = maxSizeT r \<longleftrightarrow> length m = unat (maxSizeT r)"
    using relT_Len[OF assms(1)] by (auto simp: word_unat_eq_iff)
  have "\<exists>r1. (if LenT r = maxSizeT r then map_option snd (NextT r) else Some r) = Some r1
     \<and> relT r1 ?m1 \<and> maxSizeT r1 = maxSizeT r"
  proof (cases "length m = unat (maxSizeT r)")
    case True
    then have "m \<noteq> []" using M1 by auto
    from relT_Next[OF assms(1) this] True full show ?thesis by auto
  next
    case False
    then show ?thesis using assms(1) full by simp
  qed
  then obtain r1 where r1: "(if LenT r = maxSizeT r then map_option snd (NextT r) else Some r) = Some r1"
    "relT r1 ?m1" "maxSizeT r1 = maxSizeT r" by blast
  have lM: "length ?m1 < unat (maxSizeT r)" using mM M1 by (auto split: if_splits)
  let ?trig = "len (itemsT r1) = 0 \<or> LenT r1 = len (itemsT r1) - 1"
  have "\<exists>r2. (if ?trig then growT r1 else Some r1) = Some r2 \<and> relT r2 ?m1
     \<and> length ?m1 + 1 < length (itemsT r2) \<and> maxSizeT r2 = maxSizeT r"
  proof (cases ?trig)
    case True
    then have t: "itemsT r1 = [] \<or> length ?m1 = length (itemsT r1) - 1"
      using relT_trigger[OF r1(2)] by simp
    from relT_grow[OF r1(2) t assms(2)] obtain g where g: "growT r1 = Some g" "relT g ?m1"
      "length (itemsT g) = max 2 (2 * length (itemsT r1))" "maxSizeT g = maxSizeT r1" by blast
    have "length ?m1 + 1 < length (itemsT g)"
      using r1(2)
    proof (cases rule: relT_cases)
      case empty
      then show ?thesis using g(3) by simp
    next
      case alloc
      then show ?thesis using t g(3) by auto
    qed
    then show ?thesis using True g r1(3) by simp
  next
    case False
    then have t: "itemsT r1 \<noteq> []" "length ?m1 \<noteq> length (itemsT r1) - 1"
      using relT_trigger[OF r1(2)] by simp_all
    have "length ?m1 < length (itemsT r1)"
      using r1(2)
    proof (cases rule: relT_cases)
      case empty
      then show ?thesis using t by simp
    next
      case alloc
      show ?thesis using ring_count_lt[OF alloc(1)] r1(2) by (simp add: relT_def)
    qed
    then have "length ?m1 + 1 < length (itemsT r1)" using t(2) by simp
    then show ?thesis using False r1 by simp
  qed
  then obtain r2 where r2: "(if ?trig then growT r1 else Some r1) = Some r2" "relT r2 ?m1"
    "length ?m1 + 1 < length (itemsT r2)" "maxSizeT r2 = maxSizeT r" by blast
  let ?c = "length (itemsT r2)"
  have ok: "ring_ok ?c (maskT r2) (tailT r2) (headT r2)" and c2: "2 \<le> ?c"
    using r2(2,3) by (auto elim: relT_cases)
  have cnt: "ring_count ?c (tailT r2) (headT r2) = length ?m1" using r2(2) by (simp add: relT_def)
  have h: "holds (itemsT r2) (unat (tailT r2)) ?m1" using r2(2) by (simp add: relT_def)
  have va: "vacant (itemsT r2) (unat (tailT r2)) (length ?m1)" using r2(2) by (simp add: relT_def)
  have hd: "unat (headT r2) < ?c" using ring_ok_bounds(4)[OF ok] .
  have hpos: "unat (headT r2) = (unat (tailT r2) + length ?m1) mod ?c"
    using ring_ok_head[OF ok] cnt by simp
  let ?r' = "r2\<lparr>itemsT := (itemsT r2)[unat (headT r2) := x], headT := (headT r2 + 1) AND maskT r2\<rparr>"
  have "holds ((itemsT r2)[(unat (tailT r2) + length ?m1) mod ?c := x]) (unat (tailT r2)) (?m1 @ [x])"
    using r2(3) by (intro holds_push[OF h]) simp
  then have h': "holds (itemsT ?r') (unat (tailT ?r')) (?m1 @ [x])" using hpos by simp
  have "vacant ((itemsT r2)[(unat (tailT r2) + length ?m1) mod ?c := x]) (unat (tailT r2)) (Suc (length ?m1))"
    by (rule vacant_push[OF va])
  then have va': "vacant (itemsT ?r') (unat (tailT ?r')) (length (?m1 @ [x]))" using hpos by simp
  have ok': "ring_ok ?c (maskT r2) (tailT r2) ((headT r2 + 1) AND maskT r2)"
    using ok by (rule ring_ok_head_step)
  have cnt': "ring_count ?c (tailT r2) ((headT r2 + 1) AND maskT r2) = length (?m1 @ [x])"
    using ring_count_head_step[OF ok] cnt r2(3) by simp
  have "1 \<le>s maxSizeT r" using assms(1) by (simp add: relT_def)
  then have "relT ?r' (?m1 @ [x])"
    using ok' cnt' h' va' c2 r2(4) lM unfolding relT_def wfT_def by simp
  moreover have "AddT x r = Some ?r'"
    using r1(1) r2(1) hd by (simp add: AddT_def putT_def store_def)
  ultimately show ?thesis using r2(4) by (intro exI[of _ ?r']) simp
qed

lemma outside_slots:
  assumes "ring_ok c m t h" "outside t h j" "i < ring_count c t h"
  shows "(unat t + i) mod c \<noteq> j"
proof -
  have b: "unat t < c" "unat h < c" using ring_ok_bounds[OF assms(1)] by simp_all
  show ?thesis
  proof (cases "unat t + i < c")
    case True
    then have "(unat t + i) mod c = unat t + i" by simp
    then show ?thesis using assms(2,3) b True
      by (auto simp: outside_def ring_count_def word_le_nat_alt split: if_splits)
  next
    case False
    then have "unat t + i = c + (unat t + i - c)" by simp
    then have "(unat t + i) mod c = (c + (unat t + i - c)) mod c" by simp
    also have "\<dots> = (unat t + i - c) mod c" by (simp only: mod_add_self1)
    also have "\<dots> = unat t + i - c"
      using assms(3) b False by (auto simp: ring_count_def split: if_splits)
    finally show ?thesis using assms(2,3) b False
      by (auto simp: outside_def ring_count_def word_le_nat_alt split: if_splits)
  qed
qed

lemma vacant_outside:
  assumes "ring_ok (length xs) m t h" "vacant xs (unat t) (ring_count (length xs) t h)"
    "outside t h j" "j < length xs"
  shows "xs ! j = None"
proof -
  have "\<forall>i<ring_count (length xs) t h. (unat t + i) mod length xs \<noteq> j"
    using outside_slots[OF assms(1,3)] by blast
  then show ?thesis using assms(2,4) unfolding vacant_def by blast
qed

lemma NewRingT_rel:
  assumes "NewRingT M = Some r"
  shows "relT r []" "maxSizeT r = M" "\<not> M <s 1"
  using assms
  by (auto simp: NewRingT_def relT_def wfT_def ring_count_def holds_def vacant_def
      split: if_splits)

lemma runT_rel:
  assumes "relT r m" "unat (maxSizeT r) \<le> 2 ^ 61 \<or> length m + length ops \<le> 2 ^ 61"
  shows "\<exists>r'. runT ops r = Some r' \<and> relT r' (survivors (unat (maxSizeT r)) ops m)
     \<and> maxSizeT r' = maxSizeT r"
  using assms
proof (induction ops arbitrary: r m)
  case Nil
  then show ?case by simp
next
  case (Cons op ops)
  show ?case
  proof (cases op)
    case (Add x)
    let ?m1 = "if length m = unat (maxSizeT r) then tl m else m"
    have M1: "1 \<le> unat (maxSizeT r)"
      using Cons.prems(1) by (intro sle_one_unat) (simp add: relT_def)
    have mM: "length m \<le> unat (maxSizeT r)" using Cons.prems(1) by (simp add: relT_def)
    have "length ?m1 < 2 ^ 61"
      using Cons.prems(2) mM M1 Add by (auto split: if_splits)
    from relT_Add[OF Cons.prems(1) this, of x] obtain r1 where r1: "AddT x r = Some r1"
      "relT r1 (?m1 @ [x])" "maxSizeT r1 = maxSizeT r" by blast
    have "unat (maxSizeT r1) \<le> 2 ^ 61 \<or> length (?m1 @ [x]) + length ops \<le> 2 ^ 61"
      using Cons.prems(2) r1(3) Add by auto
    from Cons.IH[OF r1(2) this] r1 Add show ?thesis by simp
  next
    case Next
    have "\<exists>x0 r1. NextT r = Some (x0, r1) \<and> relT r1 (tl m) \<and> maxSizeT r1 = maxSizeT r"
      using relT_Next[OF Cons.prems(1)] relT_Next_empty[of r] Cons.prems(1)
      by (cases "m = []") auto
    then obtain x0 r1 where r1: "NextT r = Some (x0, r1)" "relT r1 (tl m)"
      "maxSizeT r1 = maxSizeT r" by blast
    have "unat (maxSizeT r1) \<le> 2 ^ 61 \<or> length (tl m) + length ops \<le> 2 ^ 61"
      using Cons.prems(2) r1(3) Next by auto
    from Cons.IH[OF r1(2) this] r1 Next show ?thesis by simp
  qed
qed

lemma NewRingT_run:
  assumes "NewRingT M = Some r0" "sint M \<le> 2 ^ 61 \<or> length ops \<le> 2 ^ 61"
  shows "\<exists>r. runT ops r0 = Some r \<and> relT r (survivors (unat M) ops []) \<and> maxSizeT r = M"
proof -
  have M: "1 \<le>s M" using NewRingT_rel(3)[OF assms(1)] by auto
  have "unat M < 2 ^ 63"
  proof (rule ccontr)
    assume "\<not> unat M < 2 ^ 63"
    then have "sint M < 0" by (intro sint_neg) simp
    then show False using M by (simp add: word_sle_eq)
  qed
  then have "sint M = uint M" by (rule sint_small)
  then have "sint M \<le> 2 ^ 61 \<longleftrightarrow> unat M \<le> 2 ^ 61" by (simp add: nat_int_comparison)
  then have "unat (maxSizeT r0) \<le> 2 ^ 61 \<or> length ([]::'a option list) + length ops \<le> 2 ^ 61"
    using assms(2) NewRingT_rel(2)[OF assms(1)] by simp
  from runT_rel[OF NewRingT_rel(1)[OF assms(1)] this] NewRingT_rel(2)[OF assms(1)]
  show ?thesis by simp
qed

text \<open>
  Claim C8. On a ring that \<open>NewRingT M\<close> returns, every sequence of \<open>Add\<close> and \<open>Next\<close>
  runs without a panic and leaves \<open>Len \<le> M\<close>; \<open>Len\<close> is the number of surviving
  elements and \<open>Peek(i)\<close>, for \<open>0 \<le> i < Len\<close>, is the \<open>i\<close>-th oldest of them, where the
  survivors are those of the reference queue that drops its oldest element before an
  \<open>Add\<close> at length \<open>M\<close>. The arrays of Go hold fewer than \<open>2 ^ 63\<close> slots, so the
  statement is for \<open>M \<le> 2 ^ 61\<close> or for at most \<open>2 ^ 61\<close> operations.
\<close>

theorem GrowingBoundedRing_peek:
  assumes "NewRingT M = Some r0" "sint M \<le> 2 ^ 61 \<or> length ops \<le> 2 ^ 61"
  shows "\<exists>r. runT ops r0 = Some r
     \<and> LenT r \<le>s M
     \<and> unat (LenT r) = length (survivors (unat M) ops [])
     \<and> (\<forall>i<length (survivors (unat M) ops []).
           PeekT (of_nat i) r = Some (survivors (unat M) ops [] ! i, r))"
proof -
  from NewRingT_run[OF assms] obtain r where r: "runT ops r0 = Some r"
    "relT r (survivors (unat M) ops [])" "maxSizeT r = M" by blast
  have l: "unat (LenT r) = length (survivors (unat M) ops [])" using r(2) by (rule relT_Len)
  have le: "unat (LenT r) \<le> unat M" using r(2,3) l by (simp add: relT_def)
  have "1 \<le>s M" using r(2,3) by (simp add: relT_def)
  have M63: "unat M < 2 ^ 63"
  proof (rule ccontr)
    assume "\<not> unat M < 2 ^ 63"
    then have "sint M < 0" by (intro sint_neg) simp
    then show False using \<open>1 \<le>s M\<close> by (simp add: word_sle_eq)
  qed
  then have "sint M = uint M" by (rule sint_small)
  moreover have "sint (LenT r) = uint (LenT r)" using le M63 by (intro sint_small) simp
  ultimately have "LenT r \<le>s M" using le by (simp add: word_sle_eq nat_int_comparison)
  then show ?thesis using r(1) l relT_Peek[OF r(2)] by (intro exI[of _ r]) simp
qed

text \<open>Maximum size 3: four inserts, one remove and one insert leave 3, 4, 5.\<close>

theorem GrowingBoundedRing_peek_witness:
  "NewRingT 3 = Some (\<lparr>itemsT = [], maskT = 0, tailT = 0, headT = 0, maxSizeT = 3\<rparr> :: nat RingT)
   \<and> (sint (3 :: gint) \<le> 2 ^ 61
        \<or> length [Add (Some (1::nat)), Add (Some 2), Add (Some 3), Add (Some 4), Next, Add (Some 5)]
            \<le> 2 ^ 61)
   \<and> (\<exists>r. runT [Add (Some (1::nat)), Add (Some 2), Add (Some 3), Add (Some 4), Next, Add (Some 5)]
          \<lparr>itemsT = [], maskT = 0, tailT = 0, headT = 0, maxSizeT = 3\<rparr> = Some r
        \<and> LenT r \<le>s 3 \<and> unat (LenT r) = 3
        \<and> map_option fst (PeekT 0 r) = Some (Some 3)
        \<and> map_option fst (PeekT 1 r) = Some (Some 4)
        \<and> map_option fst (PeekT 2 r) = Some (Some 5))"
proof -
  let ?r0 = "\<lparr>itemsT = [], maskT = 0, tailT = 0, headT = 0, maxSizeT = 3\<rparr> :: nat RingT"
  let ?ops = "[Add (Some (1::nat)), Add (Some 2), Add (Some 3), Add (Some 4), Next, Add (Some 5)]"
  have n: "NewRingT 3 = Some ?r0" by (simp add: NewRingT_def word_sless_alt)
  have b: "sint (3 :: gint) \<le> 2 ^ 61 \<or> length ?ops \<le> 2 ^ 61" by simp
  have s: "survivors (unat (3 :: gint)) ?ops [] = [Some 3, Some 4, Some 5]" by simp
  from GrowingBoundedRing_peek[OF n b] obtain r where r: "runT ?ops ?r0 = Some r"
    "LenT r \<le>s 3" "unat (LenT r) = length (survivors (unat (3 :: gint)) ?ops [])"
    "\<forall>i<length (survivors (unat (3 :: gint)) ?ops []).
        PeekT (of_nat i) r = Some (survivors (unat (3 :: gint)) ?ops [] ! i, r)"
    by blast
  have p: "\<And>i. i < 3 \<Longrightarrow> PeekT (of_nat i) r = Some ([Some 3, Some 4, Some 5] ! i, r)"
    using r(4) unfolding s by simp
  have "PeekT 0 r = Some (Some 3, r)" "PeekT 1 r = Some (Some 4, r)"
    "PeekT 2 r = Some (Some 5, r)"
    using p[of 0] p[of 1] p[of 2] by simp_all
  then show ?thesis using n b r(1,2,3) unfolding s by (intro conjI exI[of _ r]) simp_all
qed

lemma relW_cases:
  assumes "relW r m"
  obtains (empty) "itemsW r = []" "weightsW r = []" "tailW r = 0" "headW r = 0" "m = []"
  | (alloc) "ring_ok (length (itemsW r)) (maskW r) (tailW r) (headW r)" "4 \<le> length (itemsW r)"
      "length (weightsW r) = length (itemsW r)"
proof -
  from assms have w: "wfW r" by (simp add: relW_def)
  then have l: "length (weightsW r) = length (itemsW r)" by (simp add: wfW_def)
  from w show ?thesis
  proof (unfold wfW_def, elim disjE conjE)
    assume e: "itemsW r = []" "tailW r = 0" "headW r = 0"
    then have "m = []" using assms by (simp add: relW_def ring_count_def)
    moreover have "weightsW r = []" using l e by simp
    ultimately show ?thesis using e by (intro empty)
  next
    assume "ring_ok (length (itemsW r)) (maskW r) (tailW r) (headW r)" "4 \<le> length (itemsW r)"
    then show ?thesis using l by (rule alloc)
  qed
qed

lemma relW_Len:
  assumes "relW r m"
  shows "unat (LenW r) = length m"
  using assms
proof (cases rule: relW_cases)
  case empty
  then show ?thesis by (simp add: LenW_def)
next
  case alloc
  show ?thesis using ring_ok_len[OF alloc(1)] assms by (simp add: relW_def LenW_def)
qed

lemma relW_small:
  assumes "relW r m"
  shows "length m < 2 ^ 62"
  using assms
proof (cases rule: relW_cases)
  case empty
  then show ?thesis by simp
next
  case alloc
  show ?thesis using ring_count_lt[OF alloc(1)] ring_ok_bounds(2)[OF alloc(1)] assms
    by (simp add: relW_def)
qed

lemma relW_Next_empty: "relW r [] \<Longrightarrow> NextW r = Some ((False, None, 0), r)"
  using relW_Len[of r "[]"] by (simp add: NextW_def unat_eq_0)

lemma relW_Next:
  assumes "relW r m" "m \<noteq> []"
  shows "\<exists>r'. NextW r = Some ((True, fst (hd m), snd (hd m)), r') \<and> relW r' (tl m)
     \<and> length (itemsW r') = length (itemsW r) \<and> MaxWeightW r' = MaxWeightW r"
proof -
  let ?c = "length (itemsW r)"
  let ?t = "unat (tailW r)"
  let ?r' = "r\<lparr>tailW := (tailW r + 1) AND maskW r, weightW := weightW r - snd (hd m),
      itemsW := (itemsW r)[?t := None]\<rparr>"
  have ok: "ring_ok ?c (maskW r) (tailW r) (headW r)" and c4: "4 \<le> ?c"
    and lw: "length (weightsW r) = ?c"
    using assms by (auto elim: relW_cases)
  have t: "?t < ?c" using ring_ok_bounds(3)[OF ok] .
  have tw: "?t < length (weightsW r)" using t lw by simp
  have h: "holds (itemsW r) ?t (map fst m)" using assms(1) by (simp add: relW_def)
  have hw: "holds (weightsW r) ?t (map snd m)" using assms(1) by (simp add: relW_def)
  have va: "vacant (itemsW r) ?t (length m)" using assms(1) by (simp add: relW_def)
  have cnt: "ring_count ?c (tailW r) (headW r) = length m" using assms(1) by (simp add: relW_def)
  have le: "length (map fst m) \<le> ?c" using ring_count_lt[OF ok] cnt by simp
  have ne1: "map fst m \<noteq> []" and ne2: "map snd m \<noteq> []" using assms(2) by simp_all
  have "unat (LenW r) \<noteq> 0" using relW_Len[OF assms(1)] assms(2) by simp
  then have ne: "LenW r \<noteq> 0" by (simp add: unat_eq_0)
  have v: "itemsW r ! ?t = fst (hd m)"
    using holds_pop(1)[OF h ne1 t] assms(2) by (simp add: hd_map)
  have vw: "weightsW r ! ?t = snd (hd m)"
    using holds_pop(1)[OF hw ne2 tw] assms(2) by (simp add: hd_map)
  have t': "unat ((tailW r + 1) AND maskW r) = (?t + 1) mod ?c" using ring_ok_succ[OF ok] .
  have h': "holds (itemsW ?r') (unat (tailW ?r')) (map fst (tl m))"
    using holds_pop_clear[OF h ne1 t le, of None] t' by (simp add: map_tl)
  have hw': "holds (weightsW ?r') (unat (tailW ?r')) (map snd (tl m))"
    using holds_pop(2)[OF hw ne2 tw] t' lw by (simp add: map_tl)
  have va': "vacant (itemsW ?r') (unat (tailW ?r')) (length (tl m))"
    using vacant_pop[OF va _ t] assms(2) t' by simp
  have mk: "maskW ?r' = maskW r" by (simp add: maskW_def len_def)
  have ok': "ring_ok ?c (maskW r) ((tailW r + 1) AND maskW r) (headW r)"
    using ok by (rule ring_ok_tail_step)
  have cnt': "ring_count ?c ((tailW r + 1) AND maskW r) (headW r) = length (tl m)"
    using ring_count_tail_step[OF ok] cnt assms(2) by simp
  have sm: "weightW r - snd (hd m) = sum_list (map snd (tl m))"
    using assms by (cases m) (simp_all add: relW_def)
  have "relW ?r' (tl m)"
    using ok' cnt' h' hw' va' c4 lw sm mk unfolding relW_def wfW_def by simp
  moreover have "NextW r = Some ((True, fst (hd m), snd (hd m)), ?r')"
    using ne t tw v vw by (simp add: NextW_def index_def store_def Let_def)
  ultimately show ?thesis by (intro exI[of _ ?r']) simp
qed

lemma relW_drain:
  assumes "relW r m" "k \<le> length m" "i0 + k \<le> length newI" "length newI < 2 ^ 64"
    "length newW = length newI"
  shows "\<exists>r'. drainW k (of_nat i0) r newI newW
       = Some (r', take i0 newI @ take k (map fst m) @ drop (i0 + k) newI,
                   take i0 newW @ take k (map snd m) @ drop (i0 + k) newW)
     \<and> MaxWeightW r' = MaxWeightW r"
  using assms
proof (induction k arbitrary: r m i0 newI newW)
  case 0
  then show ?case by simp
next
  case (Suc k)
  then have ne: "m \<noteq> []" by auto
  from relW_Next[OF Suc.prems(1) ne] obtain r1 where
    r1: "NextW r = Some ((True, fst (hd m), snd (hd m)), r1)"
    "relW r1 (tl m)" "MaxWeightW r1 = MaxWeightW r" by blast
  have i0: "unat (of_nat i0 :: 64 word) = i0" "i0 < length newI" "i0 < length newW"
    using Suc.prems(3,4,5) by (simp_all add: unat_of_nat)
  then have st: "store newI (of_nat i0) (fst (hd m)) = Some (newI[i0 := fst (hd m)])"
    "store newW (of_nat i0) (snd (hd m)) = Some (newW[i0 := snd (hd m)])"
    by (simp_all add: store_def)
  have "k \<le> length (tl m)" "Suc i0 + k \<le> length (newI[i0 := fst (hd m)])"
    "length (newI[i0 := fst (hd m)]) < 2 ^ 64"
    "length (newW[i0 := snd (hd m)]) = length (newI[i0 := fst (hd m)])"
    using Suc.prems by simp_all
  from Suc.IH[OF r1(2) this] obtain r' where
    r': "drainW k (of_nat (Suc i0)) r1 (newI[i0 := fst (hd m)]) (newW[i0 := snd (hd m)])
      = Some (r', take (Suc i0) (newI[i0 := fst (hd m)]) @ take k (map fst (tl m))
                    @ drop (Suc i0 + k) (newI[i0 := fst (hd m)]),
                  take (Suc i0) (newW[i0 := snd (hd m)]) @ take k (map snd (tl m))
                    @ drop (Suc i0 + k) (newW[i0 := snd (hd m)]))"
    "MaxWeightW r' = MaxWeightW r1" by blast
  have a: "take (Suc i0) (newI[i0 := fst (hd m)]) = take i0 newI @ [fst (hd m)]"
    "take (Suc i0) (newW[i0 := snd (hd m)]) = take i0 newW @ [snd (hd m)]"
    using i0(2,3) by (simp_all add: take_Suc_conv_app_nth)
  have b: "take (Suc k) (map fst m) = fst (hd m) # take k (map fst (tl m))"
    "take (Suc k) (map snd m) = snd (hd m) # take k (map snd (tl m))"
    using ne by (cases m; simp)+
  have c: "of_nat i0 + 1 = (of_nat (Suc i0) :: 64 word)" by simp
  have "drainW (Suc k) (of_nat i0) r newI newW
      = Some (r', take i0 newI @ take (Suc k) (map fst m) @ drop (i0 + Suc k) newI,
                  take i0 newW @ take (Suc k) (map snd m) @ drop (i0 + Suc k) newW)"
    using r1(1) st r'(1) a b by (simp add: c case_prod_beta del: of_nat_Suc)
  then show ?case using r'(2) r1(3) by auto
qed

lemma evict_ref_length: "length (evict_ref W w m) \<le> length m"
  by (induction m) auto

lemma evict_ref_fits:
  "evict_ref W w m = [] \<or> \<not> W <s sum_list (map snd (evict_ref W w m)) + w"
  by (induction m) auto

lemma relW_evict:
  assumes "relW r m"
  shows "\<exists>r'. evictW w r = Some r' \<and> relW r' (evict_ref (MaxWeightW r) w m)
     \<and> length (itemsW r') = length (itemsW r) \<and> MaxWeightW r' = MaxWeightW r"
  using assms
proof (induction m arbitrary: r)
  case Nil
  then have "LenW r = 0" using relW_Len[of r "[]"] by (simp add: unat_eq_0)
  then have "evictW w r = Some r" by (subst evictW.simps) simp
  then show ?case using Nil by simp
next
  case (Cons x xs)
  have wt: "weightW r = sum_list (map snd (x # xs))" using Cons.prems by (simp add: relW_def)
  have "unat (LenW r) \<noteq> 0" using relW_Len[OF Cons.prems] by simp
  then have ne: "LenW r \<noteq> 0" by (simp add: unat_eq_0)
  show ?case
  proof (cases "MaxWeightW r <s sum_list (map snd (x # xs)) + w")
    case True
    from relW_Next[OF Cons.prems] obtain r1 where r1: "NextW r = Some ((True, fst x, snd x), r1)"
      "relW r1 xs" "length (itemsW r1) = length (itemsW r)" "MaxWeightW r1 = MaxWeightW r"
      by auto
    have "evictW w r = evictW w r1"
      using True wt ne r1(1) by (subst evictW.simps) simp
    then show ?thesis using Cons.IH[OF r1(2)] r1(3,4) True by simp
  next
    case False
    then have "evictW w r = Some r" using wt by (subst evictW.simps) simp
    then show ?thesis using False Cons.prems by simp
  qed
qed

lemma relW_put:
  assumes "relW r m" "length m + 1 < length (itemsW r)"
  shows "\<exists>r'. putW w x r = Some r' \<and> relW r' (m @ [(x, w)])
     \<and> length (itemsW r') = length (itemsW r) \<and> MaxWeightW r' = MaxWeightW r"
proof -
  let ?c = "length (itemsW r)"
  have ok: "ring_ok ?c (maskW r) (tailW r) (headW r)" and c4: "4 \<le> ?c"
    and lw: "length (weightsW r) = ?c"
    using assms by (auto elim: relW_cases)
  have cnt: "ring_count ?c (tailW r) (headW r) = length m" using assms(1) by (simp add: relW_def)
  have h: "holds (itemsW r) (unat (tailW r)) (map fst m)" using assms(1) by (simp add: relW_def)
  have hw: "holds (weightsW r) (unat (tailW r)) (map snd m)" using assms(1) by (simp add: relW_def)
  have va: "vacant (itemsW r) (unat (tailW r)) (length m)" using assms(1) by (simp add: relW_def)
  have hd: "unat (headW r) < ?c" using ring_ok_bounds(4)[OF ok] .
  have hpos: "unat (headW r) = (unat (tailW r) + length m) mod ?c"
    using ring_ok_head[OF ok] cnt by simp
  let ?its = "(itemsW r)[unat (headW r) := x]"
  let ?ws = "(weightsW r)[unat (headW r) := w]"
  let ?r1 = "r\<lparr>itemsW := ?its, weightsW := ?ws, weightW := weightW r + w\<rparr>"
  let ?r' = "?r1\<lparr>headW := (headW r + 1) AND maskW r\<rparr>"
  have mk: "maskW ?r1 = maskW r" by (simp add: maskW_def len_def)
  have "holds ((itemsW r)[(unat (tailW r) + length (map fst m)) mod ?c := x]) (unat (tailW r))
      (map fst m @ [x])"
    using assms(2) by (intro holds_push[OF h]) simp
  then have h': "holds (itemsW ?r') (unat (tailW ?r')) (map fst (m @ [(x, w)]))" using hpos by simp
  have "holds ((weightsW r)[(unat (tailW r) + length (map snd m)) mod length (weightsW r) := w])
      (unat (tailW r)) (map snd m @ [w])"
    using assms(2) lw by (intro holds_push[OF hw]) simp
  then have hw': "holds (weightsW ?r') (unat (tailW ?r')) (map snd (m @ [(x, w)]))"
    using hpos lw by simp
  have "vacant ((itemsW r)[(unat (tailW r) + length m) mod ?c := x]) (unat (tailW r)) (Suc (length m))"
    by (rule vacant_push[OF va])
  then have va': "vacant (itemsW ?r') (unat (tailW ?r')) (length (m @ [(x, w)]))" using hpos by simp
  have ok': "ring_ok ?c (maskW r) (tailW r) ((headW r + 1) AND maskW r)"
    using ok by (rule ring_ok_head_step)
  have cnt': "ring_count ?c (tailW r) ((headW r + 1) AND maskW r) = length (m @ [(x, w)])"
    using ring_count_head_step[OF ok] cnt assms(2) by simp
  have sm: "weightW r + w = sum_list (map snd (m @ [(x, w)]))" using assms(1) by (simp add: relW_def)
  have mk': "maskW ?r' = maskW r" by (simp add: maskW_def len_def)
  have "relW ?r' (m @ [(x, w)])"
    using ok' cnt' h' hw' va' c4 lw sm mk' unfolding relW_def wfW_def by simp
  moreover have "putW w x r = Some ?r'"
    using hd lw mk by (simp add: putW_def store_def Let_def)
  ultimately show ?thesis by (intro exI[of _ ?r']) simp
qed

lemma relW_grow:
  assumes "relW r m" "itemsW r = [] \<or> length m = length (itemsW r) - 1" "length m < 2 ^ 61"
  shows "\<exists>g. growW r = Some g \<and> relW g m
     \<and> itemsW g = map fst m @ replicate (max 4 (2 * length (itemsW r)) - length m) None
     \<and> weightsW g = map snd m @ replicate (max 4 (2 * length (itemsW r)) - length m) 0
     \<and> length (itemsW g) = max 4 (2 * length (itemsW r))
     \<and> tailW g = 0 \<and> headW g = LenW r \<and> weightW g = weightW r
     \<and> MaxWeightW g = MaxWeightW r"
proof -
  let ?c = "length (itemsW r)"
  let ?c' = "max 4 (2 * ?c)"
  have "\<exists>k. 2 \<le> k \<and> k \<le> 62 \<and> ?c' = 2 ^ k \<and> ?c \<le> 2 ^ 61 \<and> length m < ?c'"
    using assms(1)
  proof (cases rule: relW_cases)
    case empty
    then show ?thesis by (intro exI[of _ 2]) simp
  next
    case alloc
    then obtain k where k: "k \<le> 62" "?c = 2 ^ k" by (auto simp: ring_ok_def)
    have m: "length m = ?c - 1" using assms(2) alloc(2) by auto
    then have c: "?c \<le> 2 ^ 61" using assms(3) alloc(2) by simp
    have "k \<le> 61"
    proof (rule ccontr)
      assume "\<not> k \<le> 61"
      then have "62 \<le> k" by simp
      then have "(2::nat) ^ 62 \<le> 2 ^ k" by (intro power_increasing) simp_all
      then show False using c k(2) by simp
    qed
    moreover have "1 \<le> k" using k(2) alloc(2) by (cases k) simp_all
    moreover have "?c' = 2 ^ Suc k" using k(2) alloc(2) by simp
    ultimately show ?thesis using c m alloc(2) by (intro exI[of _ "Suc k"]) simp
  qed
  then obtain k where k: "2 \<le> k" "k \<le> 62" "?c' = 2 ^ k" "?c \<le> 2 ^ 61" "length m < ?c'"
    by blast
  have c'62: "?c' \<le> 2 ^ 62" using k(2,3) pow2_le_62 by simp
  define newSize :: "64 word" where "newSize = of_nat ?c'"
  have ns: "(if len (itemsW r) * 2 <s 4 then 4 else len (itemsW r) * 2) = newSize"
    unfolding newSize_def by (rule new_size[OF k(4) refl]) simp_all
  have sn: "nat (sint newSize) = ?c'"
    unfolding newSize_def using c'62 by (subst sint_of_nat_small) simp_all
  have ul: "unat (LenW r) = length m" using assms(1) by (rule relW_Len)
  moreover from this have "sint (LenW r) = uint (LenW r)"
    using assms(3) by (intro sint_small) simp
  ultimately have sl: "nat (sint (LenW r)) = length m" by simp
  have "length (replicate ?c' (None :: 'a option)) < 2 ^ 64" using c'62 by simp
  from relW_drain[OF assms(1) le_refl, of 0 "replicate ?c' None" "replicate ?c' 0", OF _ this] k(5)
  obtain r' where r': "drainW (length m) 0 r (replicate ?c' None) (replicate ?c' 0)
      = Some (r', map fst m @ replicate (?c' - length m) None,
                  map snd m @ replicate (?c' - length m) 0)" "MaxWeightW r' = MaxWeightW r"
    by auto
  let ?g = "r'\<lparr>itemsW := map fst m @ replicate (?c' - length m) None,
       weightsW := map snd m @ replicate (?c' - length m) 0,
       tailW := 0, headW := LenW r, weightW := weightW r\<rparr>"
  have g: "growW r = Some ?g"
    unfolding growW_def Let_def ns sn sl using r'(1) by simp
  have len: "length (map fst m @ replicate (?c' - length m) (None :: 'a option)) = ?c'"
    "length (map snd m @ replicate (?c' - length m) (0 :: gint)) = ?c'" using k(5) by simp_all
  have mk: "maskW ?g = mask k"
    unfolding maskW_def using len_mask[of "itemsW ?g" k] len(1) k(3) by simp
  have ok: "ring_ok ?c' (maskW ?g) 0 (LenW r)"
    unfolding ring_ok_def mk using k ul by (intro exI[of _ k]) simp
  have cnt: "ring_count ?c' 0 (LenW r) = length m" using ul by (simp add: ring_count_def)
  have "holds (map fst m @ replicate (?c' - length (map fst m)) None) 0 (map fst m)"
    using k(5) by (intro holds_fresh) simp
  moreover have "holds (map snd m @ replicate (?c' - length (map snd m)) 0) 0 (map snd m)"
    using k(5) by (intro holds_fresh) simp
  moreover have "vacant (map fst m @ replicate (?c' - length (map fst m)) None) 0 (length (map fst m))"
    using k(5) by (intro vacant_fresh) simp
  moreover have "weightW r = sum_list (map snd m)" using assms(1) by (simp add: relW_def)
  moreover have "4 \<le> ?c'" by simp
  ultimately have "relW ?g m"
    using ok cnt len unfolding relW_def wfW_def by simp
  then show ?thesis using g len r'(2) by (intro exI[of _ ?g]) simp
qed

lemma relW_trigger:
  assumes "relW r m"
  shows "(len (itemsW r) = 0 \<or> LenW r = len (itemsW r) - 1)
     \<longleftrightarrow> (itemsW r = [] \<or> length m = length (itemsW r) - 1)"
  using assms
proof (cases rule: relW_cases)
  case empty
  then show ?thesis by (simp add: len_def)
next
  case alloc
  have ne: "itemsW r \<noteq> []" using alloc(2) by auto
  have l0: "len (itemsW r) \<noteq> 0" using len_eq_0[OF ring_ok_len_pred(2)[OF alloc(1)]] ne by simp
  have "unat (len (itemsW r) - 1) = length (itemsW r) - 1"
    using ring_ok_bounds(5)[OF alloc(1)] by (simp add: maskW_def)
  then have "LenW r = len (itemsW r) - 1 \<longleftrightarrow> length m = length (itemsW r) - 1"
    using relW_Len[OF assms] by (simp add: word_unat_eq_iff)
  then show ?thesis using ne l0 by simp
qed

lemma relW_Add:
  assumes "relW r m" "length m < 2 ^ 61"
  shows "\<exists>r'. AddW w x r = Some r'
     \<and> relW r' (evict_ref (MaxWeightW r) w m @ [(x, w)])
     \<and> MaxWeightW r' = MaxWeightW r"
proof -
  let ?trig = "len (itemsW r) = 0 \<or> LenW r = len (itemsW r) - 1"
  have "\<exists>r1. (if ?trig then growW r else Some r) = Some r1 \<and> relW r1 m
     \<and> length m + 1 < length (itemsW r1) \<and> MaxWeightW r1 = MaxWeightW r"
  proof (cases ?trig)
    case True
    then have t: "itemsW r = [] \<or> length m = length (itemsW r) - 1"
      using relW_trigger[OF assms(1)] by simp
    from relW_grow[OF assms(1) t assms(2)] obtain g where g: "growW r = Some g" "relW g m"
      "length (itemsW g) = max 4 (2 * length (itemsW r))" "MaxWeightW g = MaxWeightW r" by blast
    have "length m + 1 < length (itemsW g)"
      using assms(1)
    proof (cases rule: relW_cases)
      case empty
      then show ?thesis using g(3) by simp
    next
      case alloc
      then show ?thesis using t g(3) by auto
    qed
    then show ?thesis using True g by simp
  next
    case False
    then have t: "itemsW r \<noteq> []" "length m \<noteq> length (itemsW r) - 1"
      using relW_trigger[OF assms(1)] by simp_all
    have "length m < length (itemsW r)"
      using assms(1)
    proof (cases rule: relW_cases)
      case empty
      then show ?thesis using t by simp
    next
      case alloc
      show ?thesis using ring_count_lt[OF alloc(1)] assms(1) by (simp add: relW_def)
    qed
    then have "length m + 1 < length (itemsW r)" using t(2) by simp
    then show ?thesis using False assms(1) by simp
  qed
  then obtain r1 where r1: "(if ?trig then growW r else Some r) = Some r1" "relW r1 m"
    "length m + 1 < length (itemsW r1)" "MaxWeightW r1 = MaxWeightW r" by blast
  from relW_evict[OF r1(2), of w] obtain r2 where r2: "evictW w r1 = Some r2"
    "relW r2 (evict_ref (MaxWeightW r) w m)" "length (itemsW r2) = length (itemsW r1)"
    "MaxWeightW r2 = MaxWeightW r" using r1(4) by auto
  have "length (evict_ref (MaxWeightW r) w m) + 1 < length (itemsW r2)"
    using evict_ref_length[of "MaxWeightW r" w m] r1(3) r2(3) by simp
  from relW_put[OF r2(2) this, of w x] obtain r' where r': "putW w x r2 = Some r'"
    "relW r' (evict_ref (MaxWeightW r) w m @ [(x, w)])" "MaxWeightW r' = MaxWeightW r2" by blast
  have "AddW w x r = Some r'" using r1(1) r2(1) r'(1) by (simp add: AddW_def)
  then show ?thesis using r' r2(4) by simp
qed

lemma relW_live_weights:
  assumes "relW r m"
  shows "live_weights r = map snd m"
proof (cases "m = []")
  case True
  then show ?thesis using relW_Len[OF assms] by (simp add: live_weights_def)
next
  case False
  then have ok: "ring_ok (length (itemsW r)) (maskW r) (tailW r) (headW r)"
    and lw: "length (weightsW r) = length (itemsW r)"
    using assms by (auto elim: relW_cases)
  have c: "length (itemsW r) \<le> 2 ^ 62" using ring_ok_bounds(2)[OF ok] .
  have lt: "length m < length (itemsW r)"
    using ring_count_lt[OF ok] assms by (simp add: relW_def)
  have hw: "holds (weightsW r) (unat (tailW r)) (map snd m)" using assms by (simp add: relW_def)
  have "weightsW r ! unat ((tailW r + of_nat i) AND maskW r) = snd (m ! i)" if "i < length m" for i
  proof -
    have i: "unat (of_nat i :: 64 word) = i" using that lt c by (simp add: unat_of_nat)
    have "unat ((tailW r + of_nat i) AND maskW r) = (unat (tailW r) + i) mod length (itemsW r)"
      using ring_ok_add[OF ok, of "of_nat i"] i that lt c by simp
    moreover have "weightsW r ! ((unat (tailW r) + i) mod length (weightsW r)) = map snd m ! i"
      using hw that unfolding holds_def by simp
    ultimately show ?thesis using that lw by simp
  qed
  then show ?thesis using relW_Len[OF assms]
    by (auto simp: live_weights_def intro!: nth_equalityI)
qed

lemma NewWeightedRingT_rel: "relW (NewWeightedRingT W) []"
  by (simp add: NewWeightedRingT_def relW_def wfW_def ring_count_def holds_def vacant_def)

lemma survivorsW_length: "length (survivorsW W ops val) \<le> length val + length ops"
proof (induction ops arbitrary: val)
  case Nil
  then show ?case by simp
next
  case (Cons op ops)
  show ?case
  proof (cases op)
    case (Add x)
    have "length (evict_ref W (fst x) val @ [(snd x, fst x)]) \<le> length val + 1"
      using evict_ref_length[of W "fst x" val] by simp
    then show ?thesis using Cons.IH[of "evict_ref W (fst x) val @ [(snd x, fst x)]"] Add by simp
  next
    case Next
    then show ?thesis using Cons.IH[of "tl val"] by simp
  qed
qed

lemma runW_rel:
  assumes "relW r m" "length m + length ops \<le> 2 ^ 61"
  shows "\<exists>r'. runW ops r = Some r' \<and> relW r' (survivorsW (MaxWeightW r) ops m)
     \<and> MaxWeightW r' = MaxWeightW r"
  using assms
proof (induction ops arbitrary: r m)
  case Nil
  then show ?case by simp
next
  case (Cons op ops)
  show ?case
  proof (cases op)
    case (Add x)
    let ?m1 = "evict_ref (MaxWeightW r) (fst x) m @ [(snd x, fst x)]"
    have "length m < 2 ^ 61" using Cons.prems(2) Add by simp
    from relW_Add[OF Cons.prems(1) this, of "fst x" "snd x"] obtain r1 where
      r1: "AddW (fst x) (snd x) r = Some r1" "relW r1 ?m1" "MaxWeightW r1 = MaxWeightW r" by blast
    have "length ?m1 + length ops \<le> 2 ^ 61"
      using Cons.prems(2) Add evict_ref_length[of "MaxWeightW r" "fst x" m] by simp
    from Cons.IH[OF r1(2) this] r1 Add show ?thesis by simp
  next
    case Next
    have "\<exists>x0 r1. NextW r = Some (x0, r1) \<and> relW r1 (tl m) \<and> MaxWeightW r1 = MaxWeightW r"
      using relW_Next[OF Cons.prems(1)] relW_Next_empty[of r] Cons.prems(1)
      by (cases "m = []") auto
    then obtain x0 r1 where r1: "NextW r = Some (x0, r1)" "relW r1 (tl m)"
      "MaxWeightW r1 = MaxWeightW r" by blast
    have "length (tl m) + length ops \<le> 2 ^ 61" using Cons.prems(2) Next by auto
    from Cons.IH[OF r1(2) this] r1 Next show ?thesis by simp
  qed
qed

text \<open>
  Claim C5. From \<open>NewWeightedRingT W\<close>, every sequence of \<open>Add\<close> and \<open>Next\<close> (of at
  most \<open>2 ^ 61\<close> operations, as the slots of an array of Go are fewer than \<open>2 ^ 63\<close>)
  runs without a panic and leaves \<open>Weight()\<close> equal to the sum of the weights of the live
  elements, growth included. An \<open>Add\<close> of weight \<open>w\<close> in the state reached then leaves
  \<open>Weight() \<le> W\<close>, or leaves exactly one element, of weight \<open>w > W\<close>. Weights and their
  sums are \<open>int\<close> values of Go: 64 bits, compared as signed.
\<close>

theorem WeightedRing_weight:
  assumes "length ops < 2 ^ 61"
  shows "\<exists>r. runW ops (NewWeightedRingT W) = Some r
     \<and> WeightW r = sum_list (live_weights r)
     \<and> (\<exists>r'. AddW w x r = Some r'
          \<and> WeightW r' = sum_list (live_weights r')
          \<and> (WeightW r' \<le>s W \<or> (LenW r' = 1 \<and> live_weights r' = [w] \<and> W <s w)))"
proof -
  have "length ([] :: ('a option \<times> gint) list) + length ops \<le> 2 ^ 61" using assms by simp
  from runW_rel[OF NewWeightedRingT_rel this, of W] obtain r m where
    r: "runW ops (NewWeightedRingT W) = Some r" "relW r m" "MaxWeightW r = W"
    and m: "m = survivorsW W ops []"
    by (auto simp: NewWeightedRingT_def)
  have lm: "length m < 2 ^ 61"
    using survivorsW_length[of W ops "[]"] assms unfolding m by simp
  from relW_Add[OF r(2) lm, of w x] obtain r' where r': "AddW w x r = Some r'"
    "relW r' (evict_ref W w m @ [(x, w)])" using r(3) by auto
  let ?e = "evict_ref W w m"
  have w': "WeightW r' = sum_list (map snd ?e) + w" using r'(2) by (simp add: relW_def WeightW_def)
  have lw': "live_weights r' = map snd ?e @ [w]" using relW_live_weights[OF r'(2)] by simp
  have "WeightW r' \<le>s W \<or> (LenW r' = 1 \<and> live_weights r' = [w] \<and> W <s w)"
  proof (cases "?e = []")
    case True
    then have "unat (LenW r') = 1" using relW_Len[OF r'(2)] by simp
    then have "LenW r' = 1" by (simp add: word_unat_eq_iff)
    then show ?thesis using True w' lw' by (auto simp: signed.not_less)
  next
    case False
    then have "\<not> W <s sum_list (map snd ?e) + w" using evict_ref_fits[of W w m] by simp
    then show ?thesis using w' by (simp add: signed.not_less)
  qed
  moreover have "WeightW r' = sum_list (live_weights r')" using w' lw' by simp
  moreover have "WeightW r = sum_list (live_weights r)"
    using relW_live_weights[OF r(2)] r(2) by (simp add: relW_def WeightW_def)
  ultimately show ?thesis using r(1) r'(1) by (intro exI[of _ r] conjI exI[of _ r']) simp_all
qed

text \<open>
  The scenario of the specification: maximum weight 10, inserts of weight 2, 3 and 4, then an
  insert of weight 3 that evicts the element of weight 2.
\<close>

theorem WeightedRing_weight_witness:
  "length [Add (2 :: gint, Some (1::nat)), Add (3, Some 2), Add (4, Some 3)] < 2 ^ 61
   \<and> (\<exists>r. runW [Add (2, Some (1::nat)), Add (3, Some 2), Add (4, Some 3)] (NewWeightedRingT 10)
            = Some r
        \<and> WeightW r = sum_list (live_weights r)
        \<and> (\<exists>r'. AddW 3 (Some 4) r = Some r'
             \<and> WeightW r' = sum_list (live_weights r')
             \<and> (WeightW r' \<le>s 10 \<or> (LenW r' = 1 \<and> live_weights r' = [3] \<and> (10 :: gint) <s 3))))
   \<and> map_option live_weights
        (runW [Add (2, Some (1::nat)), Add (3, Some 2), Add (4, Some 3), Add (3, Some 4)]
           (NewWeightedRingT 10)) = Some [3, 4, 3]"
proof -
  let ?ops = "[Add (2 :: gint, Some (1::nat)), Add (3, Some 2), Add (4, Some 3)]"
  have b: "length ?ops < 2 ^ 61" by simp
  have e: "map_option live_weights
        (runW [Add (2, Some (1::nat)), Add (3, Some 2), Add (4, Some 3), Add (3, Some 4)]
           (NewWeightedRingT 10)) = Some [3, 4, 3]"
    by code_simp
  note c = WeightedRing_weight[OF b, of 10 3 "Some 4"]
  show ?thesis by (intro conjI) (rule b, rule c, rule e)
qed

lemma relT_outside:
  assumes "relT r m" "j < length (itemsT r)" "outside (tailT r) (headT r) j"
  shows "itemsT r ! j = None"
  using assms(1)
proof (cases rule: relT_cases)
  case empty
  then show ?thesis using assms(2) by simp
next
  case alloc
  have "vacant (itemsT r) (unat (tailT r)) (ring_count (length (itemsT r)) (tailT r) (headT r))"
    using assms(1) by (simp add: relT_def)
  from vacant_outside[OF alloc(1) this assms(3,2)] show ?thesis .
qed

lemma relW_outside:
  assumes "relW r m" "j < length (itemsW r)" "outside (tailW r) (headW r) j"
  shows "itemsW r ! j = None"
  using assms(1)
proof (cases rule: relW_cases)
  case empty
  then show ?thesis using assms(2) by simp
next
  case alloc
  have "vacant (itemsW r) (unat (tailW r)) (ring_count (length (itemsW r)) (tailW r) (headW r))"
    using assms(1) by (simp add: relW_def)
  from vacant_outside[OF alloc(1) this assms(3,2)] show ?thesis .
qed

text \<open>
  Claim C10. After every sequence of \<open>Add\<close> and \<open>Next\<close> on a ring of \<open>NewRingT\<close> and on
  a ring of \<open>NewWeightedRingT\<close>, every slot of \<open>items\<close> outside the occupied region
  \<open>[tail, head)\<close> holds \<open>nil\<close>: \<open>Next\<close> clears the slot it leaves and growth moves
  the live references into a fresh array of \<open>nil\<close>s. (Sequences as long as in C5 and C8.)
\<close>

theorem evicted_slots_are_nil:
  fixes r0 :: "'a RingT" and opsW :: "(gint \<times> 'b option) ring_op list"
  assumes "NewRingT M = Some r0" "sint M \<le> 2 ^ 61 \<or> length opsT \<le> 2 ^ 61"
    and "length opsW < 2 ^ 61"
  shows "(\<exists>r. runT opsT r0 = Some r
            \<and> (\<forall>j<length (itemsT r). outside (tailT r) (headT r) j \<longrightarrow> itemsT r ! j = None))
       \<and> (\<exists>r. runW opsW (NewWeightedRingT W) = Some r
            \<and> (\<forall>j<length (itemsW r). outside (tailW r) (headW r) j \<longrightarrow> itemsW r ! j = None))"
proof
  from NewRingT_run[OF assms(1,2)] obtain r where r: "runT opsT r0 = Some r"
    "relT r (survivors (unat M) opsT [])" by blast
  show "\<exists>r. runT opsT r0 = Some r
      \<and> (\<forall>j<length (itemsT r). outside (tailT r) (headT r) j \<longrightarrow> itemsT r ! j = None)"
    using r(1) relT_outside[OF r(2)] by blast
next
  have "length ([] :: ('b option \<times> gint) list) + length opsW \<le> 2 ^ 61" using assms(3) by simp
  from runW_rel[OF NewWeightedRingT_rel this, of W] obtain r m where
    r: "runW opsW (NewWeightedRingT W) = Some r" "relW r m" by blast
  show "\<exists>r. runW opsW (NewWeightedRingT W) = Some r
      \<and> (\<forall>j<length (itemsW r). outside (tailW r) (headW r) j \<longrightarrow> itemsW r ! j = None)"
    using r(1) relW_outside[OF r(2)] by blast
qed

text \<open>
  Maximum size 2, three inserts and a remove; maximum weight 10, inserts of weight 6 and 7:
  the slots left behind hold \<open>nil\<close>.
\<close>

theorem evicted_slots_are_nil_witness:
  "NewRingT 2 = Some (\<lparr>itemsT = [], maskT = 0, tailT = 0, headT = 0, maxSizeT = 2\<rparr> :: nat RingT)
   \<and> (sint (2 :: gint) \<le> 2 ^ 61
        \<or> length [Add (Some (1::nat)), Add (Some 2), Add (Some 3), Next] \<le> 2 ^ 61)
   \<and> length [Add (6 :: gint, Some (1::nat)), Add (7, Some 2)] < 2 ^ 61
   \<and> (\<exists>r. runT [Add (Some (1::nat)), Add (Some 2), Add (Some 3), Next]
            \<lparr>itemsT = [], maskT = 0, tailT = 0, headT = 0, maxSizeT = 2\<rparr> = Some r
          \<and> (\<forall>j<length (itemsT r). outside (tailT r) (headT r) j \<longrightarrow> itemsT r ! j = None))
   \<and> (\<exists>r. runW [Add (6, Some (1::nat)), Add (7, Some 2)] (NewWeightedRingT 10) = Some r
          \<and> (\<forall>j<length (itemsW r). outside (tailW r) (headW r) j \<longrightarrow> itemsW r ! j = None))
   \<and> map_option (\<lambda>r. (itemsT r, tailT r, headT r))
        (runT [Add (Some (1::nat)), Add (Some 2), Add (Some 3), Next]
           \<lparr>itemsT = [], maskT = 0, tailT = 0, headT = 0, maxSizeT = 2\<rparr>)
       = Some ([None, None, Some 3, None], 2, 3)
   \<and> map_option (\<lambda>r. (itemsW r, tailW r, headW r))
        (runW [Add (6, Some (1::nat)), Add (7, Some 2)] (NewWeightedRingT 10))
       = Some ([None, Some 2, None, None], 1, 2)"
proof -
  let ?r0 = "\<lparr>itemsT = [], maskT = 0, tailT = 0, headT = 0, maxSizeT = 2\<rparr> :: nat RingT"
  let ?opsT = "[Add (Some (1::nat)), Add (Some 2), Add (Some 3), Next]"
  let ?opsW = "[Add (6 :: gint, Some (1::nat)), Add (7, Some 2)]"
  have n: "NewRingT 2 = Some ?r0" by (simp add: NewRingT_def word_sless_alt)
  have b: "sint (2 :: gint) \<le> 2 ^ 61 \<or> length ?opsT \<le> 2 ^ 61" by simp
  have c: "length ?opsW < 2 ^ 61" by simp
  note t = evicted_slots_are_nil[OF n b c, of 10]
  have e1: "map_option (\<lambda>r. (itemsT r, tailT r, headT r)) (runT ?opsT ?r0)
       = Some ([None, None, Some 3, None], 2, 3)" by code_simp
  have e2: "map_option (\<lambda>r. (itemsW r, tailW r, headW r)) (runW ?opsW (NewWeightedRingT 10))
       = Some ([None, Some 2, None, None], 1, 2)" by code_simp
  show ?thesis
    by (intro conjI) (rule n, rule b, rule c, rule conjunct1[OF t], rule conjunct2[OF t],
        rule e1, rule e2)
qed

text \<open>
  Claim C7 at the input where the code departs from it. \<open>peek\<close> of the weighted ring has no
  range check: after one \<open>Add\<close> of weight 5 and one \<open>Next\<close> the ring is empty, every index
  is out of range, and \<open>peek(3)\<close> reads slot 0, whose reference \<open>Next\<close> cleared and whose
  weight it left: the result is \<open>(nil, 5)\<close>. On a ring never added to, \<open>peek\<close> panics.
\<close>

theorem WeightedRing_peek_stale_weight:
  "(AddW 5 (Some (1::nat)) (NewWeightedRingT 10) \<bind> NextW
      \<bind> (\<lambda>res. map_option (\<lambda>p. (LenW (snd res), fst p)) (peekW 3 (snd res))))
     = Some (0, (None, 5))
   \<and> peekW 0 (NewWeightedRingT 10 :: nat WeightedRingT) = None"
  by code_simp

lemma relT_liveT:
  assumes "relT r m"
  shows "liveT r = m"
proof (cases "m = []")
  case True
  then show ?thesis using relT_Len[OF assms] by (simp add: liveT_def)
next
  case False
  then have ok: "ring_ok (length (itemsT r)) (maskT r) (tailT r) (headT r)"
    using assms by (auto elim: relT_cases)
  have c: "length (itemsT r) \<le> 2 ^ 62" using ring_ok_bounds(2)[OF ok] .
  have lt: "length m < length (itemsT r)"
    using ring_count_lt[OF ok] assms by (simp add: relT_def)
  have h: "holds (itemsT r) (unat (tailT r)) m" using assms by (simp add: relT_def)
  have "itemsT r ! unat ((tailT r + of_nat i) AND maskT r) = m ! i" if "i < length m" for i
  proof -
    have i: "unat (of_nat i :: 64 word) = i" using that lt c by (simp add: unat_of_nat)
    have "unat ((tailT r + of_nat i) AND maskT r) = (unat (tailT r) + i) mod length (itemsT r)"
      using ring_ok_add[OF ok, of "of_nat i"] i that lt c by simp
    moreover have "itemsT r ! ((unat (tailT r) + i) mod length (itemsT r)) = m ! i"
      using h that unfolding holds_def by simp
    ultimately show ?thesis by simp
  qed
  then show ?thesis using relT_Len[OF assms]
    by (auto simp: liveT_def intro!: nth_equalityI)
qed

lemma relW_live_items:
  assumes "relW r m"
  shows "live_items r = map fst m"
proof (cases "m = []")
  case True
  then show ?thesis using relW_Len[OF assms] by (simp add: live_items_def)
next
  case False
  then have ok: "ring_ok (length (itemsW r)) (maskW r) (tailW r) (headW r)"
    using assms by (auto elim: relW_cases)
  have c: "length (itemsW r) \<le> 2 ^ 62" using ring_ok_bounds(2)[OF ok] .
  have lt: "length m < length (itemsW r)"
    using ring_count_lt[OF ok] assms by (simp add: relW_def)
  have h: "holds (itemsW r) (unat (tailW r)) (map fst m)" using assms by (simp add: relW_def)
  have "itemsW r ! unat ((tailW r + of_nat i) AND maskW r) = fst (m ! i)" if "i < length m" for i
  proof -
    have i: "unat (of_nat i :: 64 word) = i" using that lt c by (simp add: unat_of_nat)
    have "unat ((tailW r + of_nat i) AND maskW r) = (unat (tailW r) + i) mod length (itemsW r)"
      using ring_ok_add[OF ok, of "of_nat i"] i that lt c by simp
    moreover have "itemsW r ! ((unat (tailW r) + i) mod length (itemsW r)) = map fst m ! i"
      using h that unfolding holds_def by simp
    ultimately show ?thesis using that by simp
  qed
  then show ?thesis using relW_Len[OF assms]
    by (auto simp: live_items_def intro!: nth_equalityI)
qed

lemma survivors_length: "length (survivors M ops val) \<le> length val + length ops"
proof (induction ops arbitrary: val)
  case Nil
  then show ?case by simp
next
  case (Cons op ops)
  show ?case
  proof (cases op)
    case (Add x)
    have "length ((if length val = M then tl val else val) @ [x]) \<le> length val + 1" by simp
    then show ?thesis
      using Cons.IH[of "(if length val = M then tl val else val) @ [x]"] Add by simp
  next
    case Next
    then show ?thesis using Cons.IH[of "tl val"] by simp
  qed
qed

text \<open>
  Claim C2, as amended, for the two rings of references. In a state that \<open>Add\<close> and \<open>Next\<close>
  reach, when the array is empty or holds \<open>cap - 1\<close> elements (and, for \<open>RingT\<close>, \<open>Add\<close>
  does not evict because \<open>Len \<noteq> maxSize\<close>), \<open>Add\<close> first builds a new array of twice the
  length, at least 2 for \<open>RingT\<close> and 4 for \<open>WeightedRingT\<close>, holding the live elements
  oldest first from index 0 and \<open>nil\<close> after them, with \<open>tail = 0\<close> and \<open>head = Len\<close>
  (the weighted ring copies the weights alongside and keeps its total), and only then makes
  the pending insert (after the eviction by weight, for the weighted ring).
\<close>

theorem reference_rings_growth:
  fixes r :: "'a RingT" and rw :: "'b WeightedRingT"
  assumes "NewRingT M = Some r0" "runT opsT r0 = Some r" "length opsT < 2 ^ 61"
    and "LenT r \<noteq> maxSizeT r" "len (itemsT r) = 0 \<or> LenT r = len (itemsT r) - 1"
    and "runW opsW (NewWeightedRingT W) = Some rw" "length opsW < 2 ^ 61"
    and "len (itemsW rw) = 0 \<or> LenW rw = len (itemsW rw) - 1"
  shows "(\<exists>g. growT r = Some g
            \<and> length (itemsT g) = max 2 (2 * length (itemsT r))
            \<and> itemsT g = liveT r @ replicate (length (itemsT g) - unat (LenT r)) None
            \<and> tailT g = 0 \<and> headT g = LenT r
            \<and> AddT x r = putT x g)
       \<and> (\<exists>g. growW rw = Some g
            \<and> length (itemsW g) = max 4 (2 * length (itemsW rw))
            \<and> itemsW g = live_items rw @ replicate (length (itemsW g) - unat (LenW rw)) None
            \<and> weightsW g = live_weights rw @ replicate (length (itemsW g) - unat (LenW rw)) 0
            \<and> tailW g = 0 \<and> headW g = LenW rw \<and> weightW g = weightW rw
            \<and> AddW w y rw = evictW w g \<bind> putW w y)"
proof
  have "sint M \<le> 2 ^ 61 \<or> length opsT \<le> 2 ^ 61" using assms(3) by simp
  from NewRingT_run[OF assms(1) this] assms(2) have rel: "relT r (survivors (unat M) opsT [])"
    by auto
  let ?m = "survivors (unat M) opsT []"
  have lm: "length ?m < 2 ^ 61" using survivors_length[of "unat M" opsT "[]"] assms(3) by simp
  have t: "itemsT r = [] \<or> length ?m = length (itemsT r) - 1"
    using relT_trigger[OF rel] assms(5) by simp
  from relT_grow[OF rel t lm] obtain g where g: "growT r = Some g"
    "itemsT g = ?m @ replicate (max 2 (2 * length (itemsT r)) - length ?m) None"
    "length (itemsT g) = max 2 (2 * length (itemsT r))" "tailT g = 0" "headT g = LenT r"
    by blast
  have "AddT x r = putT x g" using assms(4,5) g(1) by (simp add: AddT_def)
  then show "\<exists>g. growT r = Some g
            \<and> length (itemsT g) = max 2 (2 * length (itemsT r))
            \<and> itemsT g = liveT r @ replicate (length (itemsT g) - unat (LenT r)) None
            \<and> tailT g = 0 \<and> headT g = LenT r
            \<and> AddT x r = putT x g"
    using g relT_liveT[OF rel] relT_Len[OF rel] by (intro exI[of _ g]) simp
next
  have "length ([] :: ('b option \<times> gint) list) + length opsW \<le> 2 ^ 61" using assms(7) by simp
  from runW_rel[OF NewWeightedRingT_rel this, of W] assms(6)
  have rel: "relW rw (survivorsW W opsW [])" by (auto simp: NewWeightedRingT_def)
  let ?m = "survivorsW W opsW []"
  have lm: "length ?m < 2 ^ 61" using survivorsW_length[of W opsW "[]"] assms(7) by simp
  have t: "itemsW rw = [] \<or> length ?m = length (itemsW rw) - 1"
    using relW_trigger[OF rel] assms(8) by simp
  from relW_grow[OF rel t lm] obtain g where g: "growW rw = Some g"
    "itemsW g = map fst ?m @ replicate (max 4 (2 * length (itemsW rw)) - length ?m) None"
    "weightsW g = map snd ?m @ replicate (max 4 (2 * length (itemsW rw)) - length ?m) 0"
    "length (itemsW g) = max 4 (2 * length (itemsW rw))" "tailW g = 0" "headW g = LenW rw"
    "weightW g = weightW rw"
    by blast
  have "AddW w y rw = evictW w g \<bind> putW w y" using assms(8) g(1) by (simp add: AddW_def)
  then show "\<exists>g. growW rw = Some g
            \<and> length (itemsW g) = max 4 (2 * length (itemsW rw))
            \<and> itemsW g = live_items rw @ replicate (length (itemsW g) - unat (LenW rw)) None
            \<and> weightsW g = live_weights rw @ replicate (length (itemsW g) - unat (LenW rw)) 0
            \<and> tailW g = 0 \<and> headW g = LenW rw \<and> weightW g = weightW rw
            \<and> AddW w y rw = evictW w g \<bind> putW w y"
    using g relW_live_items[OF rel] relW_live_weights[OF rel] relW_Len[OF rel]
    by (intro exI[of _ g]) simp
qed

text \<open>
  A \<open>RingT\<close> of maximum size 3 after one insert (array of 2, one element) and a weighted ring
  after three inserts (array of 4, three elements): the next \<open>Add\<close> grows to 4 and to 8.
\<close>

theorem reference_rings_growth_witness:
  "NewRingT 3 = Some (\<lparr>itemsT = [], maskT = 0, tailT = 0, headT = 0, maxSizeT = 3\<rparr> :: nat RingT)
   \<and> runT [Add (Some (1::nat))] \<lparr>itemsT = [], maskT = 0, tailT = 0, headT = 0, maxSizeT = 3\<rparr>
       = Some \<lparr>itemsT = [Some 1, None], maskT = 1, tailT = 0, headT = 1, maxSizeT = 3\<rparr>
   \<and> length [Add (Some (1::nat))] < 2 ^ 61
   \<and> LenT \<lparr>itemsT = [Some (1::nat), None], maskT = 1, tailT = 0, headT = 1, maxSizeT = 3\<rparr> \<noteq> 3
   \<and> runW [Add (1, Some (1::nat)), Add (1, Some 2), Add (1, Some 3)] (NewWeightedRingT 10)
       = Some \<lparr>MaxWeightW = 10, weightW = 3, itemsW = [Some 1, Some 2, Some 3, None],
               weightsW = [1, 1, 1, 0], tailW = 0, headW = 3\<rparr>
   \<and> length [Add (1 :: gint, Some (1::nat)), Add (1, Some 2), Add (1, Some 3)] < 2 ^ 61
   \<and> (\<exists>g. growT \<lparr>itemsT = [Some (1::nat), None], maskT = 1, tailT = 0, headT = 1, maxSizeT = 3\<rparr>
            = Some g
          \<and> itemsT g = [Some 1, None, None, None] \<and> tailT g = 0 \<and> headT g = 1
          \<and> AddT (Some 2) \<lparr>itemsT = [Some 1, None], maskT = 1, tailT = 0, headT = 1, maxSizeT = 3\<rparr>
              = putT (Some 2) g)
   \<and> (\<exists>g. growW \<lparr>MaxWeightW = 10, weightW = 3, itemsW = [Some (1::nat), Some 2, Some 3, None],
               weightsW = [1, 1, 1, 0], tailW = 0, headW = 3\<rparr> = Some g
          \<and> itemsW g = [Some 1, Some 2, Some 3, None, None, None, None, None]
          \<and> weightsW g = [1, 1, 1, 0, 0, 0, 0, 0]
          \<and> tailW g = 0 \<and> headW g = 3 \<and> weightW g = 3
          \<and> AddW 1 (Some 4) \<lparr>MaxWeightW = 10, weightW = 3, itemsW = [Some 1, Some 2, Some 3, None],
               weightsW = [1, 1, 1, 0], tailW = 0, headW = 3\<rparr> = evictW 1 g \<bind> putW 1 (Some 4))"
proof -
  let ?init = "\<lparr>itemsT = [], maskT = 0, tailT = 0, headT = 0, maxSizeT = 3\<rparr> :: nat RingT"
  let ?r = "\<lparr>itemsT = [Some (1::nat), None], maskT = 1, tailT = 0, headT = 1, maxSizeT = 3\<rparr>"
  let ?rw = "\<lparr>MaxWeightW = 10, weightW = 3, itemsW = [Some (1::nat), Some 2, Some 3, None],
               weightsW = [1, 1, 1, 0], tailW = 0, headW = 3\<rparr>"
  let ?opsT = "[Add (Some (1::nat))]"
  let ?opsW = "[Add (1 :: gint, Some (1::nat)), Add (1, Some 2), Add (1, Some 3)]"
  have n: "NewRingT 3 = Some ?init" by (simp add: NewRingT_def word_sless_alt)
  have "map_option (\<lambda>r. (itemsT r, maskT r, tailT r, headT r, maxSizeT r)) (runT ?opsT ?init)
      = Some ([Some 1, None], 1, 0, 1, 3)" by code_simp
  then have rt: "runT ?opsT ?init = Some ?r" by (cases "runT ?opsT ?init") auto
  have lt: "length ?opsT < 2 ^ 61" by simp
  have ne: "LenT ?r \<noteq> maxSizeT ?r" by (simp add: LenT_def)
  have ne': "LenT ?r \<noteq> 3" by (simp add: LenT_def)
  have tt: "len (itemsT ?r) = 0 \<or> LenT ?r = len (itemsT ?r) - 1" by (simp add: LenT_def len_def)
  have "map_option (\<lambda>r. (MaxWeightW r, weightW r, itemsW r, weightsW r, tailW r, headW r))
        (runW ?opsW (NewWeightedRingT 10))
      = Some (10, 3, [Some 1, Some 2, Some 3, None], [1, 1, 1, 0], 0, 3)" by code_simp
  then have rw: "runW ?opsW (NewWeightedRingT 10) = Some ?rw"
    by (cases "runW ?opsW (NewWeightedRingT 10)") auto
  have lw: "length ?opsW < 2 ^ 61" by simp
  have tw: "len (itemsW ?rw) = 0 \<or> LenW ?rw = len (itemsW ?rw) - 1"
    by (simp add: LenW_def maskW_def len_def)
  note t = reference_rings_growth[OF n rt lt ne tt rw lw tw, of "Some 2" 1 "Some 4"]
  have lT: "liveT ?r = [Some 1]" by (simp add: liveT_def LenT_def)
  have lI: "live_items ?rw = [Some 1, Some 2, Some 3]"
    by (simp add: live_items_def LenW_def maskW_def len_def upt_rec)
  have lW: "live_weights ?rw = [1, 1, 1]"
    by (simp add: live_weights_def LenW_def maskW_def len_def upt_rec)
  have uT: "unat (LenT ?r) = 1" by (simp add: LenT_def)
  have uW: "unat (LenW ?rw) = 3" by (simp add: LenW_def maskW_def len_def)
  have r4: "replicate 3 (None :: nat option) = [None, None, None]"
    "replicate 5 (None :: nat option) = [None, None, None, None, None]"
    "replicate 5 (0 :: gint) = [0, 0, 0, 0, 0]" by (simp_all add: numeral_eq_Suc)
  from conjunct1[OF t] obtain g where g: "growT ?r = Some g"
    "length (itemsT g) = max 2 (2 * length (itemsT ?r))"
    "itemsT g = liveT ?r @ replicate (length (itemsT g) - unat (LenT ?r)) None"
    "tailT g = 0" "headT g = LenT ?r" "AddT (Some 2) ?r = putT (Some 2) g" by blast
  have gi: "itemsT g = [Some 1, None, None, None]"
    using g(3) unfolding g(2) lT uT by (simp add: r4)
  have gh: "headT g = 1" using g(5) by (simp add: LenT_def)
  have T: "\<exists>g. growT ?r = Some g \<and> itemsT g = [Some 1, None, None, None] \<and> tailT g = 0
      \<and> headT g = 1 \<and> AddT (Some 2) ?r = putT (Some 2) g"
    using g(1,4,6) gi gh by blast
  from conjunct2[OF t] obtain h where h: "growW ?rw = Some h"
    "length (itemsW h) = max 4 (2 * length (itemsW ?rw))"
    "itemsW h = live_items ?rw @ replicate (length (itemsW h) - unat (LenW ?rw)) None"
    "weightsW h = live_weights ?rw @ replicate (length (itemsW h) - unat (LenW ?rw)) 0"
    "tailW h = 0" "headW h = LenW ?rw" "weightW h = weightW ?rw"
    "AddW 1 (Some 4) ?rw = evictW 1 h \<bind> putW 1 (Some 4)" by blast
  have hi: "itemsW h = [Some 1, Some 2, Some 3, None, None, None, None, None]"
    using h(3) unfolding h(2) lI uW by (simp add: r4)
  have hw: "weightsW h = [1, 1, 1, 0, 0, 0, 0, 0]"
    using h(4) unfolding h(2) lW uW by (simp add: r4)
  have hh: "headW h = 3" "weightW h = 3" using h(6,7) by (simp_all add: LenW_def maskW_def len_def)
  have W: "\<exists>g. growW ?rw = Some g
          \<and> itemsW g = [Some 1, Some 2, Some 3, None, None, None, None, None]
          \<and> weightsW g = [1, 1, 1, 0, 0, 0, 0, 0]
          \<and> tailW g = 0 \<and> headW g = 3 \<and> weightW g = 3
          \<and> AddW 1 (Some 4) ?rw = evictW 1 g \<bind> putW 1 (Some 4)"
    using h(1,5,8) hi hw hh by blast
  show ?thesis by (intro conjI) (rule n, rule rt, rule lt, rule ne', rule rw, rule lw, rule T, rule W)
qed

text \<open>
  The byte ring does not grow that way. After 60 bytes written and 10 read, the array has
  64 slots, \<open>tail = 10\<close> and \<open>head = 60\<close>; a \<open>Write\<close> of 20 bytes grows the array in place to
  128 slots and leaves \<open>tail = 10\<close>: the 50 buffered bytes stay where they were, and \<open>head\<close>
  ends at 80, not at the occupancy count plus 20.
\<close>

theorem ByteRing_growth_keeps_tail:
  "map_option (\<lambda>res. (tail (snd (snd res)), head (snd (snd res)), length (data (snd (snd res)))))
     (Write (replicate 60 1) zero_Ring \<bind> (\<lambda>res. Read (replicate 10 0) (snd res)))
     = Some (10, 60, 64)
   \<and> map_option (\<lambda>res. (tail (snd res), head (snd res), length (data (snd res))))
     (Write (replicate 60 1) zero_Ring \<bind> (\<lambda>res. Read (replicate 10 0) (snd res))
        \<bind> (\<lambda>res. Write (replicate 20 2) (snd (snd res))))
     = Some (10, 80, 128)"
  by code_simp

text \<open>
  Claim C4 at the input where the code departs from it. With 40 bytes buffered in an array of
  64, ten more bytes need \<open>40 + 10 + 1 = 51 \<le> 64\<close> slots, yet \<open>DirectWrite(10)\<close> grows the
  array to 128: it passes \<open>Len() + numBytes\<close> to \<open>ensureCapacity\<close>, which adds \<open>Len()\<close> once
  more, so the capacity it asks for is \<open>2 * 40 + 10 + 1 = 91\<close>.
\<close>

theorem DirectWrite_counts_length_twice:
  "map_option (\<lambda>res. (Len (snd res), length (data (snd res)))) (Write (replicate 40 1) zero_Ring)
     = Some (40, 64)
   \<and> map_option (\<lambda>res. (fst res, Len (snd res), length (data (snd res))))
     (Write (replicate 40 1) zero_Ring \<bind> (\<lambda>res. DirectWrite 10 (snd res)))
     = Some ((40, 10), 50, 128)"
  by code_simp

lemma ring_inv_cases:
  assumes "ring_inv r"
  obtains (empty) "data r = []" "head r = 0" "tail r = 0"
  | (alloc) k where "k \<le> 62" "length (data r) = 2 ^ k" "ring_mask r = mask k"
      "len (data r) = 2 ^ k" "unat (tail r) < 2 ^ k" "unat (head r) < 2 ^ k"
      "ring_ok (length (data r)) (ring_mask r) (tail r) (head r)"
proof -
  from assms show ?thesis
  proof (unfold ring_inv_def, elim disjE conjE)
    assume "data r = []" "head r = 0" "tail r = 0"
    then show ?thesis by (rule empty)
  next
    assume ok: "ring_ok (length (data r)) (ring_mask r) (tail r) (head r)"
    then obtain k where k: "k \<le> 62" "length (data r) = 2 ^ k" "ring_mask r = mask k"
      "unat (tail r) < 2 ^ k" "unat (head r) < 2 ^ k" by (auto simp: ring_ok_def)
    have "len (data r) = 2 ^ k" using k(2) by (simp add: len_def)
    with k ok show ?thesis by (intro alloc[of k])
  qed
qed

lemma ring_inv_Len:
  assumes "ring_inv r"
  shows "unat (Len r) = ring_count (length (data r)) (tail r) (head r)"
  using assms
proof (cases rule: ring_inv_cases)
  case empty
  then show ?thesis by (simp add: Len_def ring_count_def)
next
  case (alloc k)
  show ?thesis using ring_ok_len[OF alloc(7)] by (simp add: Len_def)
qed

lemma ring_inv_Len_content:
  assumes "ring_inv r"
  shows "unat (Len r) = length (contentB r)"
  using assms
proof (cases rule: ring_inv_cases)
  case empty
  then show ?thesis by (simp add: Len_def contentB_def)
next
  case (alloc k)
  show ?thesis using ring_inv_Len[OF assms] alloc(2,5,6)
    by (auto simp: contentB_def ring_count_def word_le_nat_alt)
qed

lemma ring_inv_Len_lt:
  assumes "ring_inv r" "data r \<noteq> []"
  shows "unat (Len r) < length (data r)"
  using assms(1)
proof (cases rule: ring_inv_cases)
  case empty
  then show ?thesis using assms(2) by simp
next
  case (alloc k)
  show ?thesis using ring_inv_Len[OF assms(1)] ring_count_lt[OF alloc(7)] by simp
qed

lemma ring_inv_data_small:
  assumes "ring_inv r"
  shows "length (data r) \<le> 2 ^ 62" "unat (len (data r)) = length (data r)"
proof -
  show l: "length (data r) \<le> 2 ^ 62"
    using assms
  proof (cases rule: ring_inv_cases)
    case empty then show ?thesis by simp
  next
    case (alloc k) then show ?thesis using pow2_le_62[of k] by simp
  qed
  then show "unat (len (data r)) = length (data r)" by (intro unat_len) simp
qed

lemma unat_pow2_64: "a \<le> 63 \<Longrightarrow> unat (2 ^ a :: 64 word) = 2 ^ a"
proof -
  assume a: "a \<le> 63"
  have "(2 ^ a :: 64 word) = of_nat (2 ^ a)" by simp
  then have "unat (2 ^ a :: 64 word) = (2 ^ a) mod 2 ^ 64" by (simp only: unat_of_nat) simp
  then show ?thesis using pow2_lt_64[OF a] by simp
qed

lemma grow_cap_pow2:
  assumes "a \<le> 62" "unat need \<le> 2 ^ 62"
  shows "\<exists>b. a \<le> b \<and> b \<le> 62 \<and> grow_cap (2 ^ a) need = Some (2 ^ b)
     \<and> unat need \<le> 2 ^ b \<and> (a < b \<longrightarrow> 2 ^ (b - 1) < unat need)"
  using assms
proof (induction "62 - a" arbitrary: a)
  case 0
  then have a: "a = 62" by simp
  have "\<not> (2 ^ a :: 64 word) < need" using 0(3) a by (simp add: word_less_nat_alt unat_pow2_64)
  then have "grow_cap (2 ^ a) need = Some (2 ^ a)" by (subst grow_cap.simps) simp
  then show ?case using a 0(3) by (intro exI[of _ a]) simp
next
  case (Suc d)
  then have a: "a \<le> 61" by simp
  have u: "unat (2 ^ a :: 64 word) = 2 ^ a" using a by (intro unat_pow2_64) simp
  show ?case
  proof (cases "(2 ^ a :: 64 word) < need")
    case False
    then have "grow_cap (2 ^ a) need = Some (2 ^ a)" by (subst grow_cap.simps) simp
    moreover have "unat need \<le> 2 ^ a" using False u by (simp add: word_less_nat_alt)
    ultimately show ?thesis using Suc.prems(1) by (intro exI[of _ a]) simp
  next
    case True
    have "d = 62 - Suc a" "Suc a \<le> 62" using Suc.hyps(2) a by simp_all
    from Suc.hyps(1)[OF this Suc.prems(2)] obtain b where b: "Suc a \<le> b" "b \<le> 62"
      "grow_cap (2 ^ Suc a) need = Some (2 ^ b)" "unat need \<le> 2 ^ b"
      "Suc a < b \<longrightarrow> 2 ^ (b - 1) < unat need" by blast
    have "grow_cap (2 ^ a) need = grow_cap (2 ^ Suc a) need"
      using True by (subst grow_cap.simps) (simp add: mult.commute)
    moreover have "2 ^ (b - 1) < unat need"
    proof (cases "Suc a < b")
      case True then show ?thesis using b(5) by simp
    next
      case False
      then have "b = Suc a" using b(1) by simp
      then show ?thesis using True u by (simp add: word_less_nat_alt)
    qed
    ultimately show ?thesis using b by (intro exI[of _ b]) simp
  qed
qed

lemma unat_add_small:
  fixes x y :: "64 word"
  assumes "unat x + unat y < 2 ^ 64"
  shows "unat (x + y) = unat x + unat y"
proof -
  have "unat x + unat y < 2 ^ LENGTH(64)" using assms by simp
  then show ?thesis by (rule unat_add_lem[THEN iffD1])
qed

lemma unat_need:
  fixes fb l :: "64 word"
  assumes "unat fb + unat l + 1 \<le> 2 ^ 62"
  shows "unat (fb + l + 1) = unat fb + unat l + 1"
proof -
  have "unat fb + unat l < 2 ^ 64" using assms by simp
  then have a: "unat (fb + l) = unat fb + unat l" by (rule unat_add_small)
  have "unat (fb + l) + unat (1 :: 64 word) < 2 ^ 64" using assms a by simp
  then have "unat (fb + l + 1) = unat (fb + l) + unat (1 :: 64 word)" by (rule unat_add_small)
  then show ?thesis using a by simp
qed

lemma ensureCapacity_keep:
  assumes "ring_inv r" "unat fb + unat (Len r) + 1 \<le> length (data r)"
  shows "ensureCapacity fb r = Some r"
proof -
  have c: "length (data r) \<le> 2 ^ 62" "unat (len (data r)) = length (data r)"
    using ring_inv_data_small[OF assms(1)] by simp_all
  have "unat (fb + Len r + 1) = unat fb + unat (Len r) + 1"
    using assms(2) c(1) by (intro unat_need) simp
  then have "fb + Len r + 1 \<le> len (data r)" using assms(2) c(2) by (simp add: word_le_nat_alt)
  then show ?thesis by (simp add: ensureCapacity_def Let_def)
qed

lemma sint_unat_small: "unat (w :: 64 word) < 2 ^ 63 \<Longrightarrow> nat (sint w) = unat w"
proof -
  assume "unat w < 2 ^ 63"
  then have "sint w = uint w" by (rule sint_small)
  then show ?thesis by simp
qed

lemma pow2_lt_imp_double:
  fixes k b :: nat
  assumes "(2::nat) ^ k < 2 ^ b"
  shows "2 * 2 ^ k \<le> (2::nat) ^ b"
proof -
  have "k < b" using assms by (simp add: power_strict_increasing_iff)
  then have "Suc k \<le> b" by simp
  then have "(2::nat) ^ Suc k \<le> 2 ^ b" by (intro power_increasing) simp_all
  then show ?thesis by simp
qed

lemma ensureCapacity_grow:
  assumes "ring_inv r" "unat fb + unat (Len r) + 1 \<le> 2 ^ 62"
    and "length (data r) < unat fb + unat (Len r) + 1"
  shows "\<exists>r' b. ensureCapacity fb r = Some r' \<and> ring_inv r'
     \<and> length (data r') = 2 ^ b \<and> 6 \<le> b \<and> b \<le> 62
     \<and> unat fb + unat (Len r) + 1 \<le> 2 ^ b
     \<and> 2 * length (data r) \<le> 2 ^ b
     \<and> (b = 6 \<or> 2 ^ (b - 1) < unat fb + unat (Len r) + 1 \<or> 2 ^ b = 2 * length (data r))
     \<and> tail r' = tail r \<and> contentB r' = contentB r \<and> tail r' \<le> head r'
     \<and> (if head r < tail r
         then head r' = head r + len (data r)
           \<and> data r' = data r @ take (unat (head r)) (data r)
                @ replicate (2 ^ b - length (data r) - unat (head r)) 0
         else head r' = head r
           \<and> data r' = data r @ replicate (2 ^ b - length (data r)) 0)"
proof -
  let ?c = "length (data r)"
  let ?t = "unat (tail r)"
  let ?h = "unat (head r)"
  let ?N = "unat fb + unat (Len r) + 1"
  let ?need = "fb + Len r + 1"
  have un: "unat ?need = ?N" using assms(2) by (rule unat_need)
  have c: "?c \<le> 2 ^ 62" "unat (len (data r)) = ?c"
    using ring_inv_data_small[OF assms(1)] by simp_all
  have ngt: "\<not> ?need \<le> len (data r)" using assms(3) un c(2) by (simp add: word_le_nat_alt)
  \<comment> \<open>the starting capacity is a power of two\<close>
  have "\<exists>a. 6 \<le> a \<and> a \<le> 62
      \<and> (if len (data r) < DefaultSize then DefaultSize else len (data r)) = 2 ^ a
      \<and> (a = 6 \<or> 2 ^ a = ?c) \<and> ?c \<le> 2 ^ a"
    using assms(1)
  proof (cases rule: ring_inv_cases)
    case empty
    then show ?thesis by (intro exI[of _ 6]) (simp add: len_def DefaultSize_def)
  next
    case (alloc k)
    show ?thesis
    proof (cases "k < 6")
      case True
      then have "(2::nat) ^ k < 2 ^ 6" by (intro power_strict_increasing) simp_all
      then have lt: "?c < 64" using alloc(2) by simp
      then have "len (data r) < DefaultSize"
        using c(2) by (simp add: word_less_nat_alt DefaultSize_def)
      then show ?thesis using lt by (intro exI[of _ 6]) (simp add: DefaultSize_def)
    next
      case False
      then have "(2::nat) ^ 6 \<le> 2 ^ k" by (intro power_increasing) simp_all
      then have "\<not> ?c < 64" using alloc(2) by simp
      then have "\<not> len (data r) < DefaultSize"
        using c(2) by (simp add: word_less_nat_alt DefaultSize_def)
      then show ?thesis using False alloc(1,2,4) by (intro exI[of _ k]) simp
    qed
  qed
  then obtain a where a: "6 \<le> a" "a \<le> 62"
    "(if len (data r) < DefaultSize then DefaultSize else len (data r)) = 2 ^ a"
    "a = 6 \<or> 2 ^ a = ?c" "?c \<le> 2 ^ a" by blast
  have "unat ?need \<le> 2 ^ 62" using un assms(2) by simp
  from grow_cap_pow2[OF a(2) this] obtain b where b: "a \<le> b" "b \<le> 62"
    "grow_cap (2 ^ a) ?need = Some (2 ^ b)" "?N \<le> 2 ^ b" "a < b \<longrightarrow> 2 ^ (b - 1) < ?N"
    using un by auto
  have b6: "6 \<le> b" using a(1) b(1) by simp
  have cb: "?c < 2 ^ b" using assms(3) b(4) by simp
  have ub: "unat (2 ^ b :: 64 word) = 2 ^ b" using b(2) by (intro unat_pow2_64) simp
  have b62: "(2::nat) ^ b \<le> 2 ^ 62" using b(2) by (rule pow2_le_62)
  have "len (data r) \<le> 2 ^ b" using cb c(2) ub by (simp add: word_le_nat_alt)
  then have "unat (2 ^ b - len (data r)) = 2 ^ b - ?c" using ub c(2) by (simp add: unat_sub)
  moreover from this have "unat (2 ^ b - len (data r)) < 2 ^ 63" using b62 by simp
  ultimately have extra: "nat (sint (2 ^ b - len (data r))) = 2 ^ b - ?c"
    by (simp add: sint_unat_small)
  let ?d1 = "data r @ replicate (2 ^ b - ?c) 0"
  have l1: "length ?d1 = 2 ^ b" using cb by simp
  have dbl: "2 * ?c \<le> 2 ^ b"
    using assms(1)
  proof (cases rule: ring_inv_cases)
    case empty then show ?thesis by simp
  next
    case (alloc k)
    then show ?thesis using pow2_lt_imp_double[of k b] cb by simp
  qed
  have minim: "b = 6 \<or> 2 ^ (b - 1) < ?N \<or> 2 ^ b = 2 * ?c"
  proof (cases "a < b")
    case True then show ?thesis using b(5) by simp
  next
    case False
    then have "b = a" using b(1) by simp
    then show ?thesis using a(4) cb by auto
  qed
  show ?thesis
  proof (cases "head r < tail r")
    case False
    let ?r' = "r\<lparr>data := ?d1\<rparr>"
    have e: "ensureCapacity fb r = Some ?r'"
      using ngt a(3) b(3) extra False by (simp add: ensureCapacity_def Let_def)
    have le: "?t \<le> ?h" using False by (simp add: word_less_nat_alt)
    have "?h < 2 ^ b \<and> ?t < 2 ^ b \<and> ?h \<le> ?c"
      using assms(1)
    proof (cases rule: ring_inv_cases)
      case empty then show ?thesis by simp
    next
      case (alloc k)
      then have "?h < ?c" "?t < ?c" by simp_all
      then show ?thesis using cb by linarith
    qed
    then have bounds: "?h < 2 ^ b" "?t < 2 ^ b" "?h \<le> ?c" by simp_all
    have mk: "ring_mask ?r' = mask b" using len_mask[of ?d1 b] l1 by (simp add: ring_mask_def)
    have "ring_ok (2 ^ b) (mask b) (tail r) (head r)"
      unfolding ring_ok_def using b(2) bounds by (intro exI[of _ b]) simp
    then have inv: "ring_inv ?r'" using l1 mk by (simp add: ring_inv_def)
    have "take (?h - ?t) (drop ?t ?d1) = take (?h - ?t) (drop ?t (data r))"
      using bounds(3) le by simp
    then have ct: "contentB ?r' = contentB r" using False by (simp add: contentB_def)
    show ?thesis
      using e inv l1 b6 b(2,4) dbl minim ct False
      by (intro exI[of _ ?r'] exI[of _ b]) (simp add: word_le_nat_alt word_less_nat_alt)
  next
    case True
    then have lt: "?h < ?t" by (simp add: word_less_nat_alt)
    from assms(1) obtain k where k: "k \<le> 62" "?c = 2 ^ k" "?t < ?c" "?h < ?c"
    proof (cases rule: ring_inv_cases)
      case empty then show ?thesis using True by simp
    next
      case (alloc k) then show ?thesis using that by simp
    qed
    have hc: "unat (len (data r) + head r) = ?c + ?h"
      using c k(4) unat_add_small[of "len (data r)" "head r"] by simp
    have s1: "slice_uint ?d1 (len (data r)) (len (data r) + head r) = Some (?c, ?h)"
      using hc c(2) l1 dbl k(4) by (simp add: slice_uint_def word_le_nat_alt)
    have s2: "slice_uint ?d1 0 (head r) = Some (0, ?h)"
      using l1 k(4) cb by (simp add: slice_uint_def)
    have w: "window ?d1 (0, ?h) = take ?h (data r)" using k(4) by (simp add: window_def)
    have cp: "copy_to ?d1 (?c, ?h) (take ?h (data r))
        = data r @ take ?h (data r) @ replicate (2 ^ b - ?c - ?h) 0"
      using k(4) by (simp add: copy_to_def min_def Let_def)
    let ?d2 = "data r @ take ?h (data r) @ replicate (2 ^ b - ?c - ?h) 0"
    let ?r' = "r\<lparr>data := ?d2, head := head r + len (data r)\<rparr>"
    have e: "ensureCapacity fb r = Some ?r'"
      using ngt a(3) b(3) extra True s1 s2 w cp
      by (simp add: ensureCapacity_def Let_def)
    have l2: "length ?d2 = 2 ^ b" using k(4) dbl by simp
    have hc': "unat (head r + len (data r)) = ?c + ?h" using hc by (simp add: add.commute)
    have mk: "ring_mask ?r' = mask b" using len_mask[of ?d2 b] l2 by (simp add: ring_mask_def)
    have "ring_ok (2 ^ b) (mask b) (tail r) (head r + len (data r))"
      unfolding ring_ok_def using b(2) hc' k(3,4) dbl cb by (intro exI[of _ b]) simp
    then have inv: "ring_inv ?r'" using l2 mk by (simp add: ring_inv_def)
    have th: "tail r \<le> head r + len (data r)" using hc' k(3) by (simp add: word_le_nat_alt)
    have ntl: "\<not> tail r \<le> head r" using True by simp
    have tk: "take (?c + ?h - ?t) (drop ?t ?d2) = drop ?t (data r) @ take ?h (data r)"
    proof -
      have "drop ?t ?d2 = drop ?t (data r) @ (take ?h (data r) @ replicate (2 ^ b - ?c - ?h) 0)"
        using k(3) by simp
      moreover have "?c + ?h - ?t = length (drop ?t (data r)) + ?h" using k(3) by simp
      moreover have "take ?h (take ?h (data r) @ replicate (2 ^ b - ?c - ?h) 0) = take ?h (data r)"
        using k(4) by simp
      ultimately show ?thesis by (simp only: take_append) simp
    qed
    have "contentB ?r' = take (unat (head r + len (data r)) - ?t) (drop ?t ?d2)"
      using th by (simp add: contentB_def)
    also have "\<dots> = take (?c + ?h - ?t) (drop ?t ?d2)" by (simp only: hc')
    also have "\<dots> = drop ?t (data r) @ take ?h (data r)" by (rule tk)
    also have "\<dots> = contentB r" using ntl by (simp add: contentB_def)
    finally have ct: "contentB ?r' = contentB r" .
    show ?thesis
      using e inv l2 b6 b(2,4) dbl minim ct True th
      by (intro exI[of _ ?r'] exI[of _ b]) simp
  qed
qed

lemma ring_inv_Len_sint:
  assumes "ring_inv r"
  shows "nat (sint (Len r)) = length (contentB r)"
proof -
  have "unat (Len r) = length (contentB r)" using assms by (rule ring_inv_Len_content)
  moreover have "unat (Len r) < 2 ^ 63"
  proof (cases "data r = []")
    case True
    then show ?thesis using assms by (auto simp: ring_inv_def Len_def ring_ok_def)
  next
    case False
    then show ?thesis
      using ring_inv_Len_lt[OF assms] ring_inv_data_small(1)[OF assms] by simp
  qed
  ultimately show ?thesis by (simp add: sint_unat_small)
qed

lemma ringContent_eq:
  assumes "ring_inv r"
  shows "ringContent r = Some (contentB r)"
proof (cases "tail r \<le> head r")
  case True
  let ?t = "unat (tail r)" and ?h = "unat (head r)"
  have le: "?t \<le> ?h" using True by (simp add: word_le_nat_alt)
  have hc: "?h \<le> length (data r)"
    using assms by (cases rule: ring_inv_cases) simp_all
  have n: "length (contentB r) = ?h - ?t" using True hc by (simp add: contentB_def)
  have us: "unat (head r - tail r) = ?h - ?t" using True by (simp add: unat_sub)
  have ls: "Len r = head r - tail r"
    using ring_inv_Len_content[OF assms] n us by (simp add: word_unat_eq_iff)
  have s1: "slice_uint (data r) (tail r) (tail r + (head r - tail r)) = Some (?t, ?h - ?t)"
    using True hc by (simp add: slice_uint_def)
  have w: "window (data r) (?t, ?h - ?t) = contentB r" using True by (simp add: window_def contentB_def)
  have cp: "copy_to (replicate (length (contentB r)) 0) (0, length (contentB r)) (contentB r)
      = contentB r" by (simp add: copy_to_def)
  have nlt: "\<not> head r < tail r" using True by simp
  show ?thesis
    using True nlt s1 w cp ls ring_inv_Len_sint[OF assms]
    by (simp add: ringContent_def Let_def)
next
  case False
  let ?t = "unat (tail r)" and ?h = "unat (head r)" and ?c = "length (data r)"
  have lt: "head r < tail r" using False by simp
  then have lt': "?h < ?t" by (simp add: word_less_nat_alt)
  from assms obtain k where k: "k \<le> 62" "?c = 2 ^ k" "?t < ?c" "?h < ?c"
  proof (cases rule: ring_inv_cases)
    case empty then show ?thesis using lt by simp
  next
    case (alloc k) then show ?thesis using that by simp
  qed
  have c: "unat (len (data r)) = ?c" using ring_inv_data_small(2)[OF assms] .
  have ct: "contentB r = drop ?t (data r) @ take ?h (data r)" using False by (simp add: contentB_def)
  have n: "length (contentB r) = ?c - ?t + ?h" using ct k(3,4) by simp
  have tl: "tail r \<le> len (data r)" using k(3) c by (simp add: word_le_nat_alt)
  have us: "unat (len (data r) - tail r) = ?c - ?t" using tl c by (simp add: unat_sub)
  have s1: "slice_uint (data r) (tail r) (tail r + (len (data r) - tail r)) = Some (?t, ?c - ?t)"
    using tl c by (simp add: slice_uint_def)
  have w1: "window (data r) (?t, ?c - ?t) = drop ?t (data r)" by (simp add: window_def)
  let ?buf = "replicate (length (contentB r)) (0 :: byte)"
  let ?buf1 = "drop ?t (data r) @ replicate ?h (0 :: byte)"
  have "min (length ?buf) (length (drop ?t (data r))) = ?c - ?t" using n k(3) by simp
  then have cp1: "copy_to ?buf (0, length ?buf) (drop ?t (data r)) = ?buf1"
    using n k(3) by (simp add: copy_to_def Let_def del: length_replicate length_drop)
      (simp add: n)
  have "unat (head r + (len (data r) - tail r)) = ?h + (?c - ?t)"
    using us k(3,4) ring_inv_data_small(1)[OF assms]
    by (intro unat_add_small[THEN trans]) simp_all
  then have hs: "head r + (len (data r) - tail r) = Len r"
    using ring_inv_Len_content[OF assms] n by (simp add: word_unat_eq_iff)
  have l1: "length ?buf1 = ?c - ?t + ?h" using k(3) by simp
  have ul1: "unat (len ?buf1) = ?c - ?t + ?h"
    using l1 k(3,4) ring_inv_data_small(1)[OF assms] by (intro unat_len[THEN trans]) simp_all
  have d: "slice_uint ?buf1 (len (data r) - tail r) (len ?buf1) = Some (?c - ?t, ?h)"
    using us ul1 l1 by (simp add: slice_uint_def word_le_nat_alt)
  have s2: "slice_uint (data r) 0 (head r) = Some (0, ?h)" using k(4) by (simp add: slice_uint_def)
  have w2: "window (data r) (0, ?h) = take ?h (data r)" by (simp add: window_def)
  have cp2: "copy_to ?buf1 (?c - ?t, ?h) (take ?h (data r)) = contentB r"
    using ct k(3,4) by (simp add: copy_to_def min_def)
  show ?thesis
    unfolding ringContent_def Let_def ring_inv_Len_sint[OF assms] ring_end_def
    using False lt s1 w1 cp1 hs d s2 w2 cp2
    by simp
qed

text \<open>
  Claim C3. In a well-shaped byte ring with \<open>head < tail\<close>, when \<open>ensureCapacity\<close> grows the
  array (the required capacity \<open>forBytes + Len + 1\<close> exceeds the array; requests stay below
  \<open>2 ^ 62\<close>), it returns with the prefix \<open>[0, head)\<close> copied to the slots from the old
  capacity on, \<open>head\<close> advanced by the old capacity and \<open>tail\<close> unchanged. Afterwards
  \<open>tail \<le> head\<close>, the content is the single region \<open>[tail, head)\<close> of the array, and content
  and length are what they were.
\<close>

theorem ByteRing_growth_unwraps:
  assumes "ring_inv r" "head r < tail r"
    and "unat forBytes + unat (Len r) + 1 \<le> 2 ^ 62"
    and "\<not> forBytes + Len r + 1 \<le> len (data r)"
  shows "\<exists>r'. ensureCapacity forBytes r = Some r'
     \<and> 2 * length (data r) \<le> length (data r')
     \<and> take (unat (head r)) (drop (length (data r)) (data r')) = take (unat (head r)) (data r)
     \<and> head r' = head r + len (data r) \<and> tail r' = tail r
     \<and> tail r' \<le> head r'
     \<and> ringContent r' = Some (take (unat (head r') - unat (tail r')) (drop (unat (tail r')) (data r')))
     \<and> ringContent r' = ringContent r \<and> Len r' = Len r \<and> ring_inv r'"
proof -
  have c: "unat (len (data r)) = length (data r)" using ring_inv_data_small(2)[OF assms(1)] .
  have "unat (forBytes + Len r + 1) = unat forBytes + unat (Len r) + 1"
    using assms(3) by (rule unat_need)
  then have g: "length (data r) < unat forBytes + unat (Len r) + 1"
    using assms(4) c by (simp add: word_le_nat_alt)
  from ensureCapacity_grow[OF assms(1,3) g] obtain r' b where
    all: "ensureCapacity forBytes r = Some r' \<and> ring_inv r'
     \<and> length (data r') = 2 ^ b \<and> 6 \<le> b \<and> b \<le> 62
     \<and> unat forBytes + unat (Len r) + 1 \<le> 2 ^ b
     \<and> 2 * length (data r) \<le> 2 ^ b
     \<and> (b = 6 \<or> 2 ^ (b - 1) < unat forBytes + unat (Len r) + 1 \<or> 2 ^ b = 2 * length (data r))
     \<and> tail r' = tail r \<and> contentB r' = contentB r \<and> tail r' \<le> head r'
     \<and> (if head r < tail r
         then head r' = head r + len (data r)
           \<and> data r' = data r @ take (unat (head r)) (data r)
                @ replicate (2 ^ b - length (data r) - unat (head r)) 0
         else head r' = head r
           \<and> data r' = data r @ replicate (2 ^ b - length (data r)) 0)"
    by blast
  have r': "ensureCapacity forBytes r = Some r'" "ring_inv r'" "length (data r') = 2 ^ b"
    "2 * length (data r) \<le> 2 ^ b" "tail r' = tail r" "contentB r' = contentB r"
    "tail r' \<le> head r'"
    using all by blast+
  have r'8: "head r' = head r + len (data r)"
    and r'9: "data r' = data r @ take (unat (head r)) (data r)
        @ replicate (2 ^ b - length (data r) - unat (head r)) 0"
    using all assms(2) by (simp_all only: if_True)
  have hc: "unat (head r) < length (data r)"
    using assms(1,2) by (cases rule: ring_inv_cases) simp_all
  have cp: "take (unat (head r)) (drop (length (data r)) (data r')) = take (unat (head r)) (data r)"
    unfolding r'9 using hc by simp
  have rc: "ringContent r' = Some (contentB r')" using r'(2) by (rule ringContent_eq)
  have rc0: "ringContent r = Some (contentB r)" using assms(1) by (rule ringContent_eq)
  have "unat (Len r') = unat (Len r)"
    using ring_inv_Len_content[OF r'(2)] ring_inv_Len_content[OF assms(1)] r'(6) by simp
  then have ln: "Len r' = Len r" by (simp add: word_unat_eq_iff)
  have "contentB r' = take (unat (head r') - unat (tail r')) (drop (unat (tail r')) (data r'))"
    using r'(7) by (simp add: contentB_def)
  then show ?thesis
    using r'(1,2,3,4,5,7) r'8 cp rc rc0 r'(6) ln by (intro exI[of _ r']) simp
qed

text \<open>
  An array of 8 with \<open>head = 2\<close> and \<open>tail = 5\<close> holds 6, 7, 8, 1, 2; room for 6 more bytes
  grows it to 64 slots, and the bytes 1, 2 move to the slots 8 and 9.
\<close>

theorem ByteRing_growth_unwraps_witness:
  "ring_inv \<lparr>head = 2, tail = 5, data = [1, 2, 3, 4, 5, 6, 7, 8]\<rparr>
   \<and> (\<exists>r'. ensureCapacity 6 \<lparr>head = 2, tail = 5, data = [1, 2, 3, 4, 5, 6, 7, 8]\<rparr> = Some r'
        \<and> length (data r') = 64 \<and> take 10 (data r') = [1, 2, 3, 4, 5, 6, 7, 8, 1, 2]
        \<and> head r' = 10 \<and> tail r' = 5
        \<and> ringContent r' = Some [6, 7, 8, 1, 2] \<and> Len r' = 5)"
proof -
  let ?r = "\<lparr>head = 2, tail = 5, data = [1, 2, 3, 4, 5, 6, 7, 8 :: byte]\<rparr>"
  have m: "ring_mask ?r = mask 3" by (simp add: ring_mask_def len_def mask_eq_exp_minus_1)
  have inv: "ring_inv ?r"
    unfolding ring_inv_def ring_ok_def m by (intro disjI2 exI[of _ 3]) simp
  have ht: "head ?r < tail ?r" by simp
  have l: "Len ?r = 5" by (simp add: Len_def ring_mask_def len_def)
  have b: "unat (6 :: 64 word) + unat (Len ?r) + 1 \<le> 2 ^ 62" unfolding l by simp
  have g: "\<not> 6 + Len ?r + 1 \<le> len (data ?r)" unfolding l by (simp add: len_def)
  from ByteRing_growth_unwraps[OF inv ht b g] obtain r' where
    r': "ensureCapacity 6 ?r = Some r'" "head r' = head ?r + len (data ?r)" "tail r' = tail ?r"
    "ringContent r' = ringContent ?r" "Len r' = Len ?r" by blast
  have e: "map_option (\<lambda>r. (length (data r), take 10 (data r))) (ensureCapacity 6 ?r)
      = Some (64, [1, 2, 3, 4, 5, 6, 7, 8, 1, 2])" by code_simp
  have rc: "ringContent ?r = Some [6, 7, 8, 1, 2]" by code_simp
  have "length (data r') = 64" "take 10 (data r') = [1, 2, 3, 4, 5, 6, 7, 8, 1, 2]"
    using e unfolding r'(1) by simp_all
  moreover have "head r' = 10" using r'(2) by (simp add: len_def)
  moreover have "tail r' = 5" using r'(3) by simp
  ultimately show ?thesis using inv r'(1,4,5) rc l by (intro conjI exI[of _ r']) simp_all
qed

lemma sint_of_nat_unat:
  assumes "q < 2 ^ 63"
  shows "sint (of_nat q :: 64 word) = int q" "unat (of_nat q :: 64 word) = q"
  using assms sint_of_nat_small[of q] by (simp_all add: unat_of_nat)

lemma sint_eq_int_unat: "unat (w :: 64 word) < 2 ^ 63 \<Longrightarrow> sint w = int (unat w)"
  using sint_small[of w] by simp

lemma sless_small:
  fixes x y :: "64 word"
  assumes "unat x < 2 ^ 63" "unat y < 2 ^ 63"
  shows "x <s y \<longleftrightarrow> unat x < unat y" "x \<le>s y \<longleftrightarrow> unat x \<le> unat y"
proof -
  have "sint x = int (unat x)" "sint y = int (unat y)"
    using assms by (simp_all only: sint_eq_int_unat)
  then show "x <s y \<longleftrightarrow> unat x < unat y" "x \<le>s y \<longleftrightarrow> unat x \<le> unat y"
    by (simp_all only: word_sless_alt word_sle_eq of_nat_less_iff of_nat_le_iff)
qed

lemma DirectRead_spec:
  assumes "ring_inv r" "q < 2 ^ 63"
  shows "\<exists>r'. DirectRead (of_nat q) r = Some (take (read_len r q) (contentB r), r')
     \<and> ring_inv r' \<and> contentB r' = drop (read_len r q) (contentB r)
     \<and> data r' = data r
     \<and> (read_len r q < min q (length (contentB r)) \<longrightarrow> tail r' = 0)"
proof -
  let ?c = "length (data r)" and ?t = "unat (tail r)" and ?h = "unat (head r)"
  let ?n = "length (contentB r)"
  let ?m = "read_len r q"
  have c: "?c \<le> 2 ^ 62" "unat (len (data r)) = ?c"
    using ring_inv_data_small[OF assms(1)] by simp_all
  have n: "unat (Len r) = ?n" using assms(1) by (rule ring_inv_Len_content)
  have "?t \<le> ?c \<and> ?n \<le> ?c"
    using assms(1)
  proof (cases rule: ring_inv_cases)
    case empty then show ?thesis by (simp add: contentB_def)
  next
    case (alloc k)
    then have "data r \<noteq> []" by auto
    then have "?n < ?c" using ring_inv_Len_lt[OF assms(1)] n by simp
    then show ?thesis using alloc(2,5) by simp
  qed
  then have tc: "?t \<le> ?c" "?n \<le> ?c" by simp_all
  have uq: "unat (of_nat q :: 64 word) = q" using assms(2) by (rule sint_of_nat_unat)
  have ue: "unat (ring_end r - tail r) = ?c - ?t"
    using tc(1) c(2) by (simp add: ring_end_def unat_sub word_le_nat_alt)
  let ?n1 = "if Len r <s of_nat q then Len r else of_nat q"
  have c1: "Len r <s of_nat q \<longleftrightarrow> ?n < q"
    using n tc(2) c(1) uq assms(2) sless_small(1)[of "Len r" "of_nat q"] by simp
  have un1: "unat ?n1 = min q ?n" using c1 n uq by (simp add: min_def)
  let ?n2 = "if (ring_end r - tail r) <s ?n1 then ring_end r - tail r else ?n1"
  have c2: "(ring_end r - tail r) <s ?n1 \<longleftrightarrow> ?c - ?t < min q ?n"
    using ue un1 c(1) assms(2) sless_small(1)[of "ring_end r - tail r" ?n1] by simp
  have un2: "unat ?n2 = ?m"
    using c2 ue un1 by (auto simp: read_len_def min_def)
  have c3: "?n2 \<le>s 0 \<longleftrightarrow> ?m = 0"
    using un2 sless_small(2)[of ?n2 0] c(1) tc assms(2) by (simp add: read_len_def)
  have tlt: "?t < ?c" if "0 < ?n"
    using assms(1)
  proof (cases rule: ring_inv_cases)
    case empty then show ?thesis using that by (simp add: contentB_def)
  next
    case (alloc k) then show ?thesis by simp
  qed
  show ?thesis
  proof (cases "?m = 0")
    case True
    then have "DirectRead (of_nat q) r = Some ([], r)"
      unfolding DirectRead_def Let_def using c3 by simp
    moreover have "\<not> ?m < min q ?n"
    proof
      assume a: "?m < min q ?n"
      then have "?m < ?n" by simp
      then have "0 < ?n" by (cases "contentB r") simp_all
      then have "0 < ?c - ?t" using tlt by simp
      then show False using a True by (simp add: read_len_def min_def split: if_splits)
    qed
    ultimately show ?thesis using True assms(1) by (intro exI[of _ r]) auto
  next
    case False
    then have npos: "0 < ?n" by (auto simp: read_len_def)
    from assms(1) obtain k where k: "k \<le> 62" "?c = 2 ^ k" "ring_mask r = mask k" "?t < ?c" "?h < ?c"
      and ok: "ring_ok ?c (ring_mask r) (tail r) (head r)"
    proof (cases rule: ring_inv_cases)
      case empty then show ?thesis using npos by (simp add: contentB_def)
    next
      case (alloc k) then show ?thesis using that by simp
    qed
    have mle: "?m \<le> ?c - ?t" "?m \<le> ?n" "?m \<le> q" by (simp_all add: read_len_def)
    have ut: "unat (tail r + ?n2) = ?t + ?m"
      using un2 mle(1) k(4) c(1) unat_add_small[of "tail r" ?n2] by simp
    have sl: "slice_uint (data r) (tail r) (tail r + ?n2) = Some (?t, ?m)"
      using ut mle(1) k(4) by (simp add: slice_uint_def word_le_nat_alt)
    let ?r' = "r\<lparr>tail := (tail r + ?n2) AND ring_mask r\<rparr>"
    have dr: "DirectRead (of_nat q) r = Some (window (data r) (?t, ?m), ?r')"
      unfolding DirectRead_def Let_def using c3 False sl by simp
    have ut': "unat ((tail r + ?n2) AND ring_mask r) = (?t + ?m) mod ?c"
      using ut k(2,3) by (simp add: unat_and_mask)
    have tm: "(?t + ?m) mod ?c = (if ?t + ?m = ?c then 0 else ?t + ?m)"
      using mle(1) k(4) by auto
    have mk: "ring_mask ?r' = ring_mask r" by (simp add: ring_mask_def)
    have "0 < ?c" using k(4) by (cases "data r") simp_all
    then have "(?t + ?m) mod ?c < ?c" by simp
    then have "unat ((tail r + ?n2) AND ring_mask r) < ?c" by (simp only: ut')
    then have "ring_ok ?c (ring_mask r) ((tail r + ?n2) AND ring_mask r) (head r)"
      unfolding ring_ok_def using k by (intro exI[of _ k]) simp
    then have inv: "ring_inv ?r'" using mk by (simp add: ring_inv_def)
    have wtake: "window (data r) (?t, ?m) = take ?m (contentB r)"
      using mle k(4) by (auto simp: window_def contentB_def)
    have ct: "contentB ?r' = drop ?m (contentB r)"
    proof (cases "tail r \<le> head r")
      case True
      then have th: "?t \<le> ?h" by (simp add: word_le_nat_alt)
      then have "?n = ?h - ?t" using True k(5) by (simp add: contentB_def)
      then have "?t + ?m \<le> ?h" using mle(2) th by simp
      then have t': "unat ((tail r + ?n2) AND ring_mask r) = ?t + ?m" "?t + ?m \<le> ?h"
        using ut' tm k(5) by simp_all
      then have "(tail r + ?n2) AND ring_mask r \<le> head r" by (simp add: word_le_nat_alt)
      then have "contentB ?r' = take (?h - (?t + ?m)) (drop (?t + ?m) (data r))"
        using t'(1) by (simp add: contentB_def)
      also have "\<dots> = drop ?m (take (?h - ?t) (drop ?t (data r)))"
        by (simp add: drop_take add.commute)
      finally show ?thesis using True by (simp add: contentB_def)
    next
      case False
      then have ht: "?h < ?t" by (simp add: word_le_nat_alt)
      have cb: "contentB r = drop ?t (data r) @ take ?h (data r)"
        using False by (simp add: contentB_def)
      show ?thesis
      proof (cases "?t + ?m = ?c")
        case True
        then have t': "unat ((tail r + ?n2) AND ring_mask r) = 0" using ut' tm by simp
        then have z: "(tail r + ?n2) AND ring_mask r = 0" by (simp add: unat_eq_0)
        have "contentB ?r' = take ?h (data r)" using z by (simp add: contentB_def)
        moreover have "drop ?m (contentB r) = take ?h (data r)"
          unfolding cb using True by simp
        ultimately show ?thesis by simp
      next
        case F: False
        then have t': "unat ((tail r + ?n2) AND ring_mask r) = ?t + ?m" using ut' tm by simp
        then have "\<not> (tail r + ?n2) AND ring_mask r \<le> head r"
          using ht by (simp add: word_le_nat_alt)
        then have "contentB ?r' = drop (?t + ?m) (data r) @ take ?h (data r)"
          using t' by (simp add: contentB_def)
        moreover have "drop ?m (contentB r) = drop (?t + ?m) (data r) @ take ?h (data r)"
          unfolding cb using mle(1) by (simp add: add.commute)
        ultimately show ?thesis by simp
      qed
    qed
    have wrap: "?m < min q ?n \<longrightarrow> tail ?r' = 0"
    proof
      assume "?m < min q ?n"
      then have "?m = ?c - ?t" by (auto simp: read_len_def min_def split: if_splits)
      then have "?t + ?m = ?c" using k(4) by simp
      then have "unat ((tail r + ?n2) AND ring_mask r) = 0" using ut' tm by simp
      then show "tail ?r' = 0" by (simp add: unat_eq_0)
    qed
    show ?thesis
      using dr wtake inv ct wrap by (intro exI[of _ ?r']) simp
  qed
qed

lemma read_len_le: "read_len r q \<le> q" "read_len r q \<le> length (contentB r)"
  by (simp_all add: read_len_def)

lemma content_le_data:
  assumes "ring_inv r"
  shows "length (contentB r) \<le> length (data r)"
proof (cases "data r = []")
  case True
  then show ?thesis by (simp add: contentB_def)
next
  case False
  then show ?thesis
    using ring_inv_Len_lt[OF assms] ring_inv_Len_content[OF assms] by simp
qed

lemma Read_spec:
  assumes "ring_inv r" "length b < 2 ^ 63"
  shows "\<exists>r'. Read b r
       = Some ((of_nat (min (length b) (length (contentB r))),
                if contentB r = [] then Some EOF else None),
               take (min (length b) (length (contentB r))) (contentB r)
                 @ drop (min (length b) (length (contentB r))) b,
               r')
     \<and> ring_inv r'
     \<and> contentB r' = drop (min (length b) (length (contentB r))) (contentB r)"
proof -
  let ?q = "length b" and ?n = "length (contentB r)"
  let ?m1 = "read_len r ?q"
  from DirectRead_spec[OF assms] obtain r1 where r1:
    "DirectRead (of_nat ?q) r = Some (take ?m1 (contentB r), r1)" "ring_inv r1"
    "contentB r1 = drop ?m1 (contentB r)" "data r1 = data r"
    "?m1 < min ?q ?n \<longrightarrow> tail r1 = 0" by blast
  let ?s1 = "take ?m1 (contentB r)"
  have m1: "?m1 \<le> ?q" "?m1 \<le> ?n" by (rule read_len_le)+
  have ls1: "length ?s1 = ?m1" using m1(2) by simp
  let ?q2 = "?q - ?m1"
  let ?m2 = "read_len r1 ?q2"
  have q2: "?q2 < 2 ^ 63" using assms(2) by simp
  from DirectRead_spec[OF r1(2) q2] obtain r2 where r2:
    "DirectRead (of_nat ?q2) r1 = Some (take ?m2 (contentB r1), r2)" "ring_inv r2"
    "contentB r2 = drop ?m2 (contentB r1)" by blast
  let ?s2 = "take ?m2 (contentB r1)"
  have m2: "?m2 \<le> ?q2" "?m2 \<le> length (contentB r1)" by (rule read_len_le)+
  have ls2: "length ?s2 = ?m2" using m2(2) by simp
  have n1: "length (contentB r1) = ?n - ?m1" using r1(3) by simp
  have tot: "?m1 + ?m2 = min ?q ?n"
  proof (cases "?m1 < min ?q ?n")
    case True
    then have "tail r1 = 0" using r1(5) by simp
    moreover have "length (contentB r1) \<le> length (data r1)"
      using r1(2) by (rule content_le_data)
    ultimately have "?m2 = min ?q2 (?n - ?m1)" using n1 by (simp add: read_len_def)
    then show ?thesis using True by (simp add: min_def split: if_splits)
  next
    case False
    then have e: "?m1 = min ?q ?n" using m1 by linarith
    then have "min ?q2 (?n - ?m1) = 0" by (simp add: min_def split: if_splits)
    then have "?m2 = 0" using m2 n1 by simp
    then show ?thesis using e by simp
  qed
  let ?k = "min ?q ?n"
  \<comment> \<open>the two copies into \<open>b\<close>\<close>
  let ?b1 = "?s1 @ drop ?m1 b"
  have b1: "copy_to b (0, length b) ?s1 = ?b1" using m1 by (simp add: copy_to_def min_def Let_def)
  have lb1: "length ?b1 = ?q" using m1 by simp
  have um1: "unat (of_nat ?m1 :: 64 word) = ?m1" "sint (of_nat ?m1 :: 64 word) = int ?m1"
    using m1(1) assms(2) sint_of_nat_unat[of ?m1] by simp_all
  have uq: "unat (of_nat ?q :: 64 word) = ?q" "sint (of_nat ?q :: 64 word) = int ?q"
    using assms(2) sint_of_nat_unat[of ?q] by simp_all
  have sl: "slice_int ?b1 (of_nat ?m1) (of_nat ?q) = Some (?m1, ?q - ?m1)"
    using um1 uq m1(1) lb1 by (simp add: slice_int_def word_sle_eq)
  have b2: "copy_to ?b1 (?m1, ?q - ?m1) ?s2 = ?s1 @ ?s2 @ drop (?m1 + ?m2) b"
    using m1 m2 ls1 ls2 by (simp add: copy_to_def min_def add.commute Let_def)
  have cat: "?s1 @ ?s2 = take ?k (contentB r)"
    unfolding r1(3) tot[symmetric] by (simp add: take_add)
  have sub: "(of_nat ?q :: 64 word) - of_nat ?m1 = of_nat ?q2" using m1(1) by simp
  have total: "(of_nat ?m1 :: 64 word) + of_nat ?m2 = of_nat ?k" using tot by (simp flip: of_nat_add)
  have c2: "contentB r2 = drop ?k (contentB r)"
    unfolding r2(3) r1(3) tot[symmetric] by (simp add: add.commute)
  have k63: "?k < 2 ^ 63" using assms(2) by simp
  have z1: "(of_nat ?k :: 64 word) = 0 \<longleftrightarrow> ?k = 0"
    using sint_of_nat_unat(2)[OF k63] by (auto simp: unat_eq_0[symmetric] simp del: unat_eq_0)
  have z2: "Len r2 = 0 \<longleftrightarrow> ?n - ?k = 0"
    using ring_inv_Len_content[OF r2(2)] c2 by (auto simp: unat_eq_0[symmetric] simp del: unat_eq_0)
  have eof: "(of_nat ?k :: 64 word) = 0 \<and> Len r2 = 0 \<longleftrightarrow> contentB r = []"
    unfolding z1 z2 by (auto simp: min_def split: if_splits)
  have L1: "DirectRead (len b) r = Some (?s1, r1)" using r1(1) by (simp add: len_def)
  have L2: "len ?s1 = of_nat ?m1" "len ?s2 = of_nat ?m2" "len ?b1 = of_nat ?q" "len b = of_nat ?q"
    using ls1 ls2 lb1 by (simp_all only: len_def)
  have L3: "DirectRead (len b - len ?s1) r1 = Some (?s2, r2)"
    using r2(1) by (simp only: L2 sub)
  have L4: "slice_int ?b1 (len ?s1) (len ?b1) = Some (?m1, ?q - ?m1)"
    using sl by (simp only: L2)
  have L5: "copy_to ?b1 (?m1, ?q - ?m1) ?s2 = take ?k (contentB r) @ drop ?k b"
    using b2 cat tot by simp
  have L6: "len ?s1 + len ?s2 = of_nat ?k" using total by (simp only: L2)
  have "Read b r = (if (of_nat ?k :: 64 word) = 0 \<and> Len r2 = 0
      then Some ((of_nat ?k, Some EOF), take ?k (contentB r) @ drop ?k b, r2)
      else Some ((of_nat ?k, None), take ?k (contentB r) @ drop ?k b, r2))"
    unfolding Read_def
    by (simp only: L1 b1 L3 L4 L5 L6 Let_def Option.bind.simps prod.case)
  then have "Read b r = Some ((of_nat ?k, if contentB r = [] then Some EOF else None),
      take ?k (contentB r) @ drop ?k b, r2)"
    unfolding eof by (cases "contentB r = []") simp_all
  then show ?thesis using r2(2) c2 by (intro exI[of _ r2]) simp
qed

lemma ring_inv_zero: "ring_inv zero_Ring"
  by (simp add: ring_inv_def zero_Ring_def)

lemma ring_inv_Len_0:
  assumes "ring_inv r"
  shows "Len r = 0 \<longleftrightarrow> contentB r = []"
  using ring_inv_Len_content[OF assms]
  by (auto simp: unat_eq_0[symmetric] simp del: unat_eq_0)

text \<open>
  Claim C9. On a well-shaped byte ring and a buffer \<open>buf\<close> (of length below \<open>2 ^ 63\<close>, as
  every slice of Go), \<open>Read\<close> returns: it copies the first \<open>min(len(buf), Len())\<close> buffered
  bytes to the front of \<open>buf\<close>, removes them from the ring and returns their number. The
  error is \<open>io.EOF\<close> exactly when the ring was empty, and then the number is 0 and \<open>buf\<close> is
  untouched; in every other case, a zero-length \<open>buf\<close> included, the error is \<open>nil\<close>.
\<close>

theorem ByteRing_Read:
  assumes "ring_inv r" "length buf < 2 ^ 63"
  shows "\<exists>content r'. ringContent r = Some content
     \<and> Read buf r
        = Some ((of_nat (min (length buf) (unat (Len r))),
                 if Len r = 0 then Some EOF else None),
                take (min (length buf) (unat (Len r))) content
                  @ drop (min (length buf) (unat (Len r))) buf,
                r')
     \<and> ringContent r' = Some (drop (min (length buf) (unat (Len r))) content)
     \<and> ring_inv r'"
proof -
  from Read_spec[OF assms] obtain r' where r': "Read buf r
       = Some ((of_nat (min (length buf) (length (contentB r))),
                if contentB r = [] then Some EOF else None),
               take (min (length buf) (length (contentB r))) (contentB r)
                 @ drop (min (length buf) (length (contentB r))) buf,
               r')"
    "ring_inv r'"
    "contentB r' = drop (min (length buf) (length (contentB r))) (contentB r)" by blast
  have l: "unat (Len r) = length (contentB r)" using assms(1) by (rule ring_inv_Len_content)
  show ?thesis
    using r' ringContent_eq[OF assms(1)] ringContent_eq[OF r'(2)] ring_inv_Len_0[OF assms(1)]
    by (intro exI[of _ "contentB r"] exI[of _ r']) (simp add: l)
qed

text \<open>
  A ring holding the bytes 1, 2: a read into no room returns \<open>(0, nil)\<close>, a read into three
  slots returns \<open>(2, nil)\<close>; a read from the empty ring returns \<open>(0, io.EOF)\<close>.
\<close>

theorem ByteRing_Read_witness:
  "ring_inv \<lparr>head = 3, tail = 1, data = [9, 1, 2, 0]\<rparr> \<and> ring_inv zero_Ring
   \<and> length ([] :: byte list) < 2 ^ 63
   \<and> map_option (\<lambda>res. (fst res, fst (snd res)))
        (Read [] \<lparr>head = 3, tail = 1, data = [9, 1, 2, 0]\<rparr>) = Some ((0, None), [])
   \<and> map_option (\<lambda>res. (fst res, fst (snd res)))
        (Read [0, 0, 0] \<lparr>head = 3, tail = 1, data = [9, 1, 2, 0]\<rparr>) = Some ((2, None), [1, 2, 0])
   \<and> map_option (\<lambda>res. (fst res, fst (snd res))) (Read [7] zero_Ring) = Some ((0, Some EOF), [7])"
proof -
  let ?r = "\<lparr>head = 3, tail = 1, data = [9, 1, 2, 0 :: byte]\<rparr>"
  have m: "ring_mask ?r = mask 2" by (simp add: ring_mask_def len_def mask_eq_exp_minus_1)
  have inv: "ring_inv ?r"
    unfolding ring_inv_def ring_ok_def m by (intro disjI2 exI[of _ 2]) simp
  have l: "Len ?r = 2" by (simp add: Len_def ring_mask_def len_def)
  have lz: "Len zero_Ring = 0" by (simp add: Len_def zero_Ring_def)
  have rc: "ringContent ?r = Some [1, 2]" by code_simp
  have rz: "ringContent zero_Ring = Some []" by code_simp
  have b0: "length ([] :: byte list) < 2 ^ 63" by simp
  have b3: "length ([0, 0, 0] :: byte list) < 2 ^ 63" by simp
  have b1: "length ([7] :: byte list) < 2 ^ 63" by simp
  have A: "map_option (\<lambda>res. (fst res, fst (snd res))) (Read [] ?r) = Some ((0, None), [])"
    using ByteRing_Read[OF inv b0] unfolding l rc by auto
  have B: "map_option (\<lambda>res. (fst res, fst (snd res))) (Read [0, 0, 0] ?r)
      = Some ((2, None), [1, 2, 0])"
    using ByteRing_Read[OF inv b3] unfolding l rc by auto
  have C: "map_option (\<lambda>res. (fst res, fst (snd res))) (Read [7] zero_Ring)
      = Some ((0, Some EOF), [7])"
    using ByteRing_Read[OF ring_inv_zero b1] unfolding lz rz by auto
  show ?thesis by (intro conjI) (rule inv, rule ring_inv_zero, rule b0, rule A, rule B, rule C)
qed

lemma ensureCapacity_result:
  assumes "ring_inv r" "unat fb + unat (Len r) + 1 \<le> 2 ^ 62"
  shows "\<exists>r1. ensureCapacity fb r = Some r1 \<and> ring_inv r1 \<and> contentB r1 = contentB r
     \<and> unat fb + unat (Len r) + 1 \<le> length (data r1)
     \<and> tail r1 = tail r
     \<and> (head r = 0 \<longrightarrow> length (data r) \<le> length (data r1) - unat (head r1))"
proof (cases "unat fb + unat (Len r) + 1 \<le> length (data r)")
  case True
  then have "ensureCapacity fb r = Some r" using assms(1) by (intro ensureCapacity_keep)
  then show ?thesis using True assms(1) by (intro exI[of _ r]) simp
next
  case False
  then have g: "length (data r) < unat fb + unat (Len r) + 1" by simp
  from ensureCapacity_grow[OF assms g] obtain r' b where
    all: "ensureCapacity fb r = Some r' \<and> ring_inv r'
     \<and> length (data r') = 2 ^ b \<and> 6 \<le> b \<and> b \<le> 62
     \<and> unat fb + unat (Len r) + 1 \<le> 2 ^ b
     \<and> 2 * length (data r) \<le> 2 ^ b
     \<and> (b = 6 \<or> 2 ^ (b - 1) < unat fb + unat (Len r) + 1 \<or> 2 ^ b = 2 * length (data r))
     \<and> tail r' = tail r \<and> contentB r' = contentB r \<and> tail r' \<le> head r'
     \<and> (if head r < tail r
         then head r' = head r + len (data r)
           \<and> data r' = data r @ take (unat (head r)) (data r)
                @ replicate (2 ^ b - length (data r) - unat (head r)) 0
         else head r' = head r
           \<and> data r' = data r @ replicate (2 ^ b - length (data r)) 0)"
    by blast
  have r': "ensureCapacity fb r = Some r'" "ring_inv r'" "length (data r') = 2 ^ b"
    "unat fb + unat (Len r) + 1 \<le> 2 ^ b" "2 * length (data r) \<le> 2 ^ b"
    "tail r' = tail r" "contentB r' = contentB r"
    using all by blast+
  have hd: "head r' = (if head r < tail r then head r + len (data r) else head r)"
    using all by (cases "head r < tail r") simp_all
  have c: "unat (len (data r)) = length (data r)" using ring_inv_data_small(2)[OF assms(1)] .
  have room: "length (data r) \<le> length (data r') - unat (head r')" if "head r = 0"
    using that hd c r'(3,5) by (cases "head r < tail r") simp_all
  show ?thesis using r' room by (intro exI[of _ r']) simp
qed

text \<open>\<open>DirectWrite\<close> followed by the caller's \<open>copy\<close> into the window it returned.\<close>

lemma DirectWrite_spec:
  assumes "ring_inv r" "2 * length (contentB r) + nb + 1 \<le> 2 ^ 62"
  shows "\<exists>lo m r2. DirectWrite (of_nat nb) r = Some ((lo, m), r2) \<and> ring_inv r2
     \<and> m \<le> nb \<and> lo + m \<le> length (data r2)
     \<and> (m < nb \<longrightarrow> head r2 = 0 \<and> nb < length (data r2))
     \<and> (head r = 0 \<longrightarrow> nb < length (data r) \<longrightarrow> m = nb)
     \<and> (\<forall>src. m \<le> length src \<longrightarrow>
           ring_inv (r2\<lparr>data := copy_to (data r2) (lo, m) src\<rparr>)
           \<and> contentB (r2\<lparr>data := copy_to (data r2) (lo, m) src\<rparr>) = contentB r @ take m src)"
proof -
  let ?n = "length (contentB r)"
  have n: "unat (Len r) = ?n" using assms(1) by (rule ring_inv_Len_content)
  have unb: "unat (of_nat nb :: 64 word) = nb" using assms(2) by (intro unat_of_nat_small) simp
  have ufb: "unat (Len r + of_nat nb) = ?n + nb"
    using n unb assms(2) unat_add_small[of "Len r" "of_nat nb"] by simp
  have N: "unat (Len r + of_nat nb) + unat (Len r) + 1 \<le> 2 ^ 62" using ufb n assms(2) by simp
  from ensureCapacity_result[OF assms(1) N] obtain r1 where r1:
    "ensureCapacity (Len r + of_nat nb) r = Some r1" "ring_inv r1" "contentB r1 = contentB r"
    "2 * ?n + nb + 1 \<le> length (data r1)"
    "head r = 0 \<longrightarrow> length (data r) \<le> length (data r1) - unat (head r1)"
    using ufb n by auto
  let ?c = "length (data r1)" and ?t = "unat (tail r1)" and ?h = "unat (head r1)"
  have c: "?c \<le> 2 ^ 62" "unat (len (data r1)) = ?c"
    using ring_inv_data_small[OF r1(2)] by simp_all
  from r1(2) obtain k where k: "k \<le> 62" "?c = 2 ^ k" "ring_mask r1 = mask k" "?t < ?c" "?h < ?c"
  proof (cases rule: ring_inv_cases)
    case empty then show ?thesis using r1(4) by simp
  next
    case (alloc k) then show ?thesis using that by simp
  qed
  have cnt: "ring_count ?c (tail r1) (head r1) = ?n"
    using ring_inv_Len[OF r1(2)] ring_inv_Len_content[OF r1(2)] r1(3) by simp
  \<comment> \<open>the length of the window\<close>
  let ?m = "min nb (?c - ?h)"
  have ue: "unat (ring_end r1 - head r1) = ?c - ?h"
    using k(5) c(2) by (simp add: ring_end_def unat_sub word_le_nat_alt)
  let ?nb1 = "if (ring_end r1 - head r1) <s of_nat nb then ring_end r1 - head r1 else of_nat nb"
  have "(ring_end r1 - head r1) <s (of_nat nb :: 64 word) \<longleftrightarrow> ?c - ?h < nb"
    using ue unb c(1) assms(2) sless_small(1)[of "ring_end r1 - head r1" "of_nat nb"] by simp
  then have um: "unat ?nb1 = ?m" using ue unb by (simp add: min_def)
  have uh: "unat (head r1 + ?nb1) = ?h + ?m"
    using um k(5) c(1) unat_add_small[of "head r1" ?nb1] by simp
  have hm: "?h + ?m \<le> ?c" using k(5) by simp
  have s0: "0 \<le>s head r1" using sless_small(2)[of 0 "head r1"] k(5) c(1) by simp
  have s1: "head r1 \<le>s head r1 + ?nb1"
    using sless_small(2)[of "head r1" "head r1 + ?nb1"] uh k(5) c(1) hm by simp
  have "unat (head r1 + ?nb1) < 2 ^ 63" using uh hm c(1) by simp
  then have "sint (head r1 + ?nb1) = int (unat (head r1 + ?nb1))" by (rule sint_eq_int_unat)
  also have "\<dots> = int (?h + ?m)" by (simp only: uh)
  also have "\<dots> \<le> int ?c" using hm by (simp only: of_nat_le_iff)
  finally have s2: "sint (head r1 + ?nb1) \<le> int ?c" .
  have sl: "slice_int (data r1) (head r1) (head r1 + ?nb1) = Some (?h, ?m)"
    using s0 s1 s2 uh by (simp add: slice_int_def)
  let ?r2 = "r1\<lparr>head := (head r1 + ?nb1) AND ring_mask r1\<rparr>"
  have dw: "DirectWrite (of_nat nb) r = Some ((?h, ?m), ?r2)"
    unfolding DirectWrite_def using r1(1) sl by (simp add: Let_def)
  have uh2: "unat (head ?r2) = (?h + ?m) mod ?c" using uh k(2,3) by (simp add: unat_and_mask)
  have c0: "0 < ?c" using k(5) by (cases "data r1") simp_all
  have h2lt: "unat (head ?r2) < ?c" unfolding uh2 using c0 by simp
  have hmod: "(?h + ?m) mod ?c = (if ?h + ?m = ?c then 0 else ?h + ?m)" using hm by auto
  have nm: "?n + ?m < ?c" using r1(4) by simp
  have inv_any: "ring_inv (?r2\<lparr>data := d\<rparr>)" if "length d = ?c" for d
  proof -
    have "ring_mask (?r2\<lparr>data := d\<rparr>) = mask k" using len_mask[of d k] that k(2) by (simp add: ring_mask_def)
    moreover have "ring_ok ?c (mask k) (tail r1) (head ?r2)"
      unfolding ring_ok_def using k h2lt by (intro exI[of _ k]) simp
    ultimately show ?thesis using that by (simp add: ring_inv_def)
  qed
  have inv2: "ring_inv ?r2" using inv_any[of "data r1"] by simp
  have short: "?m < nb \<longrightarrow> head ?r2 = 0 \<and> nb < length (data ?r2)"
  proof
    assume "?m < nb"
    then have "?h + ?m = ?c" using k(5) by (simp add: min_def split: if_splits)
    then have "unat (head ?r2) = 0" using uh2 hmod by simp
    then have "head ?r2 = 0" by (simp only: unat_eq_0)
    then show "head ?r2 = 0 \<and> nb < length (data ?r2)" using r1(4) by simp
  qed
  have full: "head r = 0 \<longrightarrow> nb < length (data r) \<longrightarrow> ?m = nb"
    using r1(5) by (auto simp: min_def)
  have cp: "ring_inv (?r2\<lparr>data := copy_to (data ?r2) (?h, ?m) src\<rparr>)
      \<and> contentB (?r2\<lparr>data := copy_to (data ?r2) (?h, ?m) src\<rparr>) = contentB r @ take ?m src"
    if src: "?m \<le> length src" for src
  proof -
    let ?d3 = "take ?h (data r1) @ take ?m src @ drop (?h + ?m) (data r1)"
    have d3: "copy_to (data ?r2) (?h, ?m) src = ?d3" using src by (simp add: copy_to_def Let_def min_def)
    have l3: "length ?d3 = ?c" using src hm k(5) by simp
    have inv3: "ring_inv (?r2\<lparr>data := ?d3\<rparr>)" using l3 by (rule inv_any)
    have ct: "contentB (?r2\<lparr>data := ?d3\<rparr>) = contentB r1 @ take ?m src"
    proof (cases "tail r1 \<le> head r1")
      case True
      then have th: "?t \<le> ?h" by (simp add: word_le_nat_alt)
      have n1: "?n = ?h - ?t" using cnt th by (simp add: ring_count_def)
      have c1: "contentB r1 = take (?h - ?t) (drop ?t (data r1))" using True by (simp add: contentB_def)
      have pre: "drop ?t (take ?h (data r1)) = contentB r1" unfolding c1 by (simp add: drop_take)
      have lpre: "length (drop ?t (take ?h (data r1))) = ?h - ?t" using k(5) by simp
      show ?thesis
      proof (cases "?h + ?m = ?c")
        case F: False
        then have u: "unat (head ?r2) = ?h + ?m" using uh2 hmod by simp
        then have "tail r1 \<le> head ?r2" using th by (simp add: word_le_nat_alt)
        then have "contentB (?r2\<lparr>data := ?d3\<rparr>) = take (?h + ?m - ?t) (drop ?t ?d3)"
          using u by (simp add: contentB_def)
        also have "drop ?t ?d3 = drop ?t (take ?h (data r1)) @ (take ?m src @ drop (?h + ?m) (data r1))"
          using th k(5) by simp
        also have "take (?h + ?m - ?t) \<dots> = drop ?t (take ?h (data r1)) @ take ?m src"
          using th src lpre by (simp add: min_def)
        finally show ?thesis using pre by simp
      next
        case T: True
        then have u: "unat (head ?r2) = 0" using uh2 hmod by simp
        then have z: "head ?r2 = 0" by (simp only: unat_eq_0)
        have "?t \<noteq> 0" using nm n1 T by auto
        then have "\<not> tail r1 \<le> head ?r2" unfolding z by (simp add: word_le_nat_alt)
        then have "contentB (?r2\<lparr>data := ?d3\<rparr>) = drop ?t ?d3 @ take 0 ?d3"
          using u by (simp add: contentB_def)
        also have "\<dots> = drop ?t (take ?h (data r1)) @ take ?m src"
          using th k(5) T src by simp
        finally show ?thesis using pre by simp
      qed
    next
      case False
      then have ht: "?h < ?t" by (simp add: word_le_nat_alt)
      have n1: "?n = ?h + ?c - ?t" using cnt ht by (simp add: ring_count_def)
      have c1: "contentB r1 = drop ?t (data r1) @ take ?h (data r1)" using False by (simp add: contentB_def)
      have lt: "?h + ?m < ?t" using nm n1 k(4) by simp
      then have u: "unat (head ?r2) = ?h + ?m" using uh2 hmod k(4) by simp
      then have "\<not> tail r1 \<le> head ?r2" using lt by (simp add: word_le_nat_alt)
      then have "contentB (?r2\<lparr>data := ?d3\<rparr>) = drop ?t ?d3 @ take (?h + ?m) ?d3"
        using u by (simp add: contentB_def)
      also have "drop ?t ?d3 = drop ?t (data r1)"
        using lt src k(5) by (simp add: min_def)
      also have "take (?h + ?m) ?d3 = take ?h (data r1) @ take ?m src"
        using src k(5) by (simp add: min_def)
      finally show ?thesis using c1 by simp
    qed
    show ?thesis using inv3 ct r1(3) by (simp only: d3)
  qed
  show ?thesis
    using dw inv2 short full cp hm
    by (intro exI[of _ ?h] exI[of _ ?m] exI[of _ ?r2]) simp
qed

lemma window_drop: "m \<le> length b \<Longrightarrow> window b (m, length b - m) = drop m b"
  by (simp add: window_def)

lemma Write_spec:
  assumes "ring_inv r" "2 * length (contentB r) + 2 * length b + 1 \<le> 2 ^ 62"
  shows "\<exists>r'. Write b r = Some ((len b, None), r') \<and> ring_inv r' \<and> contentB r' = contentB r @ b"
proof -
  let ?nb = "length b"
  have lb: "len b = of_nat ?nb" by (simp add: len_def)
  have b1: "2 * length (contentB r) + ?nb + 1 \<le> 2 ^ 62" using assms(2) by simp
  from DirectWrite_spec[OF assms(1) b1] obtain lo m r2 where d1:
    "DirectWrite (of_nat ?nb) r = Some ((lo, m), r2)" "m \<le> ?nb"
    "lo + m \<le> length (data r2)"
    "m < ?nb \<longrightarrow> head r2 = 0 \<and> ?nb < length (data r2)"
    "\<forall>src. m \<le> length src \<longrightarrow>
           ring_inv (r2\<lparr>data := copy_to (data r2) (lo, m) src\<rparr>)
           \<and> contentB (r2\<lparr>data := copy_to (data r2) (lo, m) src\<rparr>) = contentB r @ take m src"
    by blast
  let ?r3 = "r2\<lparr>data := copy_to (data r2) (lo, m) b\<rparr>"
  have r3: "ring_inv ?r3" "contentB ?r3 = contentB r @ take m b" using d1(2,5) by simp_all
  have um: "unat (of_nat m :: 64 word) = m" "unat (of_nat ?nb :: 64 word) = ?nb"
    using d1(2) assms(2) by (simp_all add: unat_of_nat_small)
  have neq: "(of_nat m :: 64 word) \<noteq> of_nat ?nb \<longleftrightarrow> m \<noteq> ?nb"
    using um by metis
  show ?thesis
  proof (cases "m = ?nb")
    case True
    then have "Write b r = Some ((len b, None), ?r3)"
      unfolding Write_def lb using d1(1) by (simp add: Let_def)
    then show ?thesis using r3 True by (intro exI[of _ ?r3]) simp
  next
    case False
    then have lt: "m < ?nb" using d1(2) by simp
    have h3: "head ?r3 = 0" using d1(4) lt by simp
    have l3: "length (data ?r3) = length (data r2)"
      using d1(2,3) by (auto simp: copy_to_def Let_def min_def)
    have "?nb < length (data r2)" using d1(4) lt by blast
    then have "?nb - m < length (data r2)" by linarith
    then have c3: "?nb - m < length (data ?r3)" by (simp only: l3)
    have b2: "2 * length (contentB ?r3) + (?nb - m) + 1 \<le> 2 ^ 62"
      using assms(2) d1(2) lt unfolding r3(2) by simp
    from DirectWrite_spec[OF r3(1) b2] obtain lo2 m2 r4 where d2:
      "DirectWrite (of_nat (?nb - m)) ?r3 = Some ((lo2, m2), r4)"
      "head ?r3 = 0 \<longrightarrow> ?nb - m < length (data ?r3) \<longrightarrow> m2 = ?nb - m"
      "\<forall>src. m2 \<le> length src \<longrightarrow>
           ring_inv (r4\<lparr>data := copy_to (data r4) (lo2, m2) src\<rparr>)
           \<and> contentB (r4\<lparr>data := copy_to (data r4) (lo2, m2) src\<rparr>) = contentB ?r3 @ take m2 src"
      by blast
    have m2: "m2 = ?nb - m" using d2(2) h3 c3 by blast
    let ?r5 = "r4\<lparr>data := copy_to (data r4) (lo2, m2) (drop m b)\<rparr>"
    have r5: "ring_inv ?r5" "contentB ?r5 = contentB ?r3 @ take m2 (drop m b)"
      using d2(3) m2 by simp_all
    have "contentB ?r5 = (contentB r @ take m b) @ take m2 (drop m b)"
      using r5(2) by (simp only: r3(2))
    also have "take m2 (drop m b) = drop m b" unfolding m2 by simp
    finally have ct: "contentB ?r5 = contentB r @ b" by simp
    have sub: "(of_nat ?nb :: 64 word) - of_nat m = of_nat (?nb - m)" using d1(2) by simp
    have nb63: "?nb < 2 ^ 63" "m < 2 ^ 63" using assms(2) d1(2) by simp_all
    have s0: "(0 :: 64 word) \<le>s of_nat m"
      using sless_small(2)[of 0 "of_nat m"] um nb63 by simp
    have s1: "(of_nat m :: 64 word) \<le>s of_nat ?nb"
      using sless_small(2)[of "of_nat m" "of_nat ?nb"] um nb63 d1(2) by simp
    have s2: "sint (of_nat ?nb :: 64 word) = int ?nb" using nb63(1) by (rule sint_of_nat_unat)
    have sl: "slice_int b (of_nat m) (of_nat ?nb) = Some (m, ?nb - m)"
      using s0 s1 s2 um by (simp add: slice_int_def)
    have w: "window b (m, ?nb - m) = drop m b" using d1(2) by (rule window_drop)
    have "Write b r = Some ((len b, None), ?r5)"
      unfolding Write_def lb using d1(1) d2(1) sl neq False
      by (simp add: Let_def sub w m2 del: of_nat_diff)
    then show ?thesis using r5(1) ct by (intro exI[of _ ?r5]) simp
  qed
qed

text \<open>
  Claim C1. Round trip through a byte ring. On an empty, well-shaped ring (the zero value
  included) and a byte sequence \<open>B\<close> of fewer than \<open>2 ^ 61\<close> bytes, \<open>Write\<close> returns, reports
  \<open>len(B)\<close> bytes written and no error, and leaves a ring whose content is \<open>B\<close>; a \<open>Read\<close>
  into a buffer of \<open>len(B)\<close> bytes then returns \<open>len(B)\<close>, fills the buffer with exactly \<open>B\<close>
  and leaves the ring empty. The error of that \<open>Read\<close> is \<open>nil\<close>, except for the empty \<open>B\<close>,
  where the ring is still empty and the error is \<open>io.EOF\<close>. Nothing is assumed about the
  capacity of the ring, so the statement covers the writes that grow the array, before the
  first copy or between the two copies of a wrapped write.
\<close>

theorem ByteRing_round_trip:
  assumes "ring_inv r" "Len r = 0" "length B < 2 ^ 61" "length buf = length B"
  shows "\<exists>r1 r2. Write B r = Some ((len B, None), r1)
     \<and> ringContent r1 = Some B
     \<and> Read buf r1 = Some ((len B, if B = [] then Some EOF else None), B, r2)
     \<and> Len r2 = 0"
proof -
  have e: "contentB r = []" using ring_inv_Len_0[OF assms(1)] assms(2) by simp
  have bnd: "2 * length (contentB r) + 2 * length B + 1 \<le> 2 ^ 62" using assms(3) e by simp
  from Write_spec[OF assms(1) bnd] obtain r1 where r1:
    "Write B r = Some ((len B, None), r1)" "ring_inv r1" "contentB r1 = B"
    using e by auto
  have lb: "length buf < 2 ^ 63" using assms(3,4) by simp
  from Read_spec[OF r1(2) lb] obtain r2 where r2: "Read buf r1
       = Some ((of_nat (min (length buf) (length (contentB r1))),
                if contentB r1 = [] then Some EOF else None),
               take (min (length buf) (length (contentB r1))) (contentB r1)
                 @ drop (min (length buf) (length (contentB r1))) buf,
               r2)"
    "ring_inv r2"
    "contentB r2 = drop (min (length buf) (length (contentB r1))) (contentB r1)" by blast
  have rd: "Read buf r1 = Some ((len B, if B = [] then Some EOF else None), B, r2)"
    using r2(1) unfolding r1(3) by (simp add: len_def assms(4))
  have "contentB r2 = []" using r2(3) unfolding r1(3) by (simp add: assms(4))
  then have z: "Len r2 = 0" using ring_inv_Len_0[OF r2(2)] by simp
  show ?thesis using r1(1) ringContent_eq[OF r1(2)] r1(3) rd z by (intro exI[of _ r1] exI[of _ r2]) simp
qed

text \<open>
  An empty ring of four slots with head and tail at slot 3, and the bytes 1, 2, 3: the first
  copy fills slot 3, the head wraps to 0, and the second \<open>DirectWrite\<close> grows the array to 64
  slots before the remaining two bytes are copied. The zero value with the empty sequence
  gives the \<open>io.EOF\<close> case.
\<close>

theorem ByteRing_round_trip_witness:
  "ring_inv \<lparr>head = 3, tail = 3, data = [0, 0, 0, 0 :: byte]\<rparr>
   \<and> Len \<lparr>head = 3, tail = 3, data = [0, 0, 0, 0 :: byte]\<rparr> = 0
   \<and> length ([1, 2, 3] :: byte list) < 2 ^ 61
   \<and> length ([0, 0, 0] :: byte list) = length ([1, 2, 3] :: byte list)
   \<and> (\<exists>r1 r2. Write [1, 2, 3] \<lparr>head = 3, tail = 3, data = [0, 0, 0, 0 :: byte]\<rparr>
                  = Some ((3, None), r1)
         \<and> length (data r1) = 64
         \<and> ringContent r1 = Some [1, 2, 3]
         \<and> Read [0, 0, 0] r1 = Some ((3, None), [1, 2, 3], r2)
         \<and> Len r2 = 0)
   \<and> ring_inv zero_Ring \<and> Len zero_Ring = 0
   \<and> (\<exists>r1 r2. Write [] zero_Ring = Some ((0, None), r1)
         \<and> Read [] r1 = Some ((0, Some EOF), [], r2))"
proof -
  let ?r = "\<lparr>head = 3, tail = 3, data = [0, 0, 0, 0 :: byte]\<rparr>"
  let ?B = "[1, 2, 3] :: byte list"
  let ?buf = "[0, 0, 0] :: byte list"
  have m: "ring_mask ?r = mask 2" by (simp add: ring_mask_def len_def mask_eq_exp_minus_1)
  have inv: "ring_inv ?r"
    unfolding ring_inv_def ring_ok_def m by (intro disjI2 exI[of _ 2]) simp
  have l: "Len ?r = 0" by (simp add: Len_def ring_mask_def len_def)
  have lz: "Len zero_Ring = 0" by (simp add: Len_def zero_Ring_def)
  have b: "length ?B < 2 ^ 61" by simp
  have bb: "length ?buf = length ?B" by simp
  have e: "length ([] :: byte list) < 2 ^ 61" "length ([] :: byte list) = length ([] :: byte list)"
    by simp_all
  have g: "map_option (\<lambda>res. length (data (snd res))) (Write ?B ?r) = Some 64" by code_simp
  from ByteRing_round_trip[OF inv l b bb] obtain r1 r2 where w:
    "Write ?B ?r = Some ((len ?B, None), r1)" "ringContent r1 = Some ?B"
    "Read ?buf r1 = Some ((len ?B, if ?B = [] then Some EOF else None), ?B, r2)" "Len r2 = 0"
    by blast
  have lB: "len ?B = 3" by (simp add: len_def)
  have g1: "length (data r1) = 64" using g unfolding w(1) by simp
  have A: "\<exists>r1 r2. Write ?B ?r = Some ((3, None), r1) \<and> length (data r1) = 64
         \<and> ringContent r1 = Some ?B \<and> Read ?buf r1 = Some ((3, None), ?B, r2) \<and> Len r2 = 0"
    using w g1 unfolding lB by (intro exI[of _ r1] exI[of _ r2]) simp
  from ByteRing_round_trip[OF ring_inv_zero lz e] obtain z1 z2 where z:
    "Write [] zero_Ring = Some ((len ([] :: byte list), None), z1)"
    "Read [] z1 = Some ((len ([] :: byte list), if ([] :: byte list) = [] then Some EOF else None), [], z2)"
    by blast
  have Z: "\<exists>r1 r2. Write [] zero_Ring = Some ((0, None), r1)
         \<and> Read [] r1 = Some ((0, Some EOF), [], r2)"
    using z by (intro exI[of _ z1] exI[of _ z2]) (simp add: len_def)
  show ?thesis
    by (intro conjI) (rule inv, rule l, rule b, rule bb, rule A, rule ring_inv_zero, rule lz, rule Z)
qed

end
